theory Spec2Isabelle
  imports Main
begin

section \<open>Data model\<close>

text \<open>
  The error values that occur in the program.  \<open>SkipDir\<close> and \<open>SkipAll\<close> are the
  sentinel values of \<open>io/fs\<close>, \<open>Canceled\<close> is \<open>context.Canceled\<close>, \<open>PathError\<close> stands
  for any failure reported by \<open>os.Lstat\<close> or \<open>os.ReadDir\<close>.  \<open>NilDereference\<close> stands
  for the run-time panic of calling a method on the nil \<open>fs.DirEntry\<close> that
  \<open>filepath.WalkDir\<close> passes together with a root error.
\<close>

datatype error = SkipDir | SkipAll | Canceled | PathError | NilDereference

text \<open>\<open>fs.DirEntry\<close>, as far as the callbacks read it.\<close>

record DirEntry =
  Name :: string
  IsDir :: bool

text \<open>
  What a walk can see below a path: a non-directory (a file, a symbolic link, ...), or a
  directory with the entries \<open>os.ReadDir\<close> returns for it, in the order in which it
  returns them.  The flag of a directory says that \<open>os.ReadDir\<close> also reported an error;
  the entries are then the ones it could read before failing.
\<close>

datatype fnode = File | Dir bool "(string \<times> fnode) list"

text \<open>
  The file system maps a path to what \<open>os.Lstat\<close> finds there; \<open>None\<close> is an
  \<open>os.Lstat\<close> error.
\<close>

type_synonym filesystem = "string \<Rightarrow> fnode option"

text \<open>\<open>ScanConfig\<close> and \<open>DirBatch\<close> of the scanner.\<close>

record ScanConfig =
  Root :: string
  MaxDepth :: int
  UseIgnorePatterns :: bool
  InitialBatchSize :: int
  MaxBatchSize :: int

record DirBatch =
  Directories :: "string list"
  Done :: bool
  Err :: "error option"

text \<open>\<open>fuzzy.Match\<close> of the ranking library, as far as \<open>fuzzyMatch\<close> fills it.\<close>

record Match =
  Str :: string
  Index :: int
  Score :: int
  MatchedIndexes :: "int list"

section \<open>Library functions on paths and strings\<close>

text \<open>
  The functions of \<open>path/filepath\<close> and \<open>strings\<close> that the scanner calls, for Unix
  paths: one-byte separator, no volume names, byte-wise comparison.  They are written on
  the list of elements of a path rather than on byte positions.
\<close>

definition Separator :: char where
  "Separator = CHR ''/''"

text \<open>\<open>strings.Split(s, "/")\<close> and its inverse \<open>strings.Join(elems, "/")\<close>.\<close>

fun split_sep :: "string \<Rightarrow> string list" where
  "split_sep [] = [[]]"
| "split_sep (c # cs) =
     (if c = Separator then [] # split_sep cs
      else (case split_sep cs of [] \<Rightarrow> [[c]] | e # es \<Rightarrow> (c # e) # es))"

fun join_sep :: "string list \<Rightarrow> string" where
  "join_sep [] = []"
| "join_sep [e] = e"
| "join_sep (e # e' # es) = e @ Separator # join_sep (e' # es)"

text \<open>
  \<open>filepath.Clean\<close>: empty elements and \<open>.\<close> are dropped; \<open>..\<close> removes the
  element before it, is dropped at the root of a rooted path, and is kept at the start of
  a relative one; the empty result is \<open>.\<close>.
\<close>

definition clean_step :: "bool \<Rightarrow> string list \<Rightarrow> string \<Rightarrow> string list" where
  "clean_step rooted out e =
     (if e = [] \<or> e = ''.'' then out
      else if e = ''..'' then
        (if out \<noteq> [] \<and> last out \<noteq> ''..'' then butlast out
         else if rooted then out
         else out @ [''..''])
      else out @ [e])"

definition Clean :: "string \<Rightarrow> string" where
  "Clean path =
     (if path = [] then ''.''
      else
        let rooted = (hd path = Separator);
            out = foldl (clean_step rooted) [] (split_sep path)
        in if rooted then Separator # join_sep out
           else if out = [] then ''.''
           else join_sep out)"

text \<open>\<open>filepath.Join\<close> of two elements, as \<open>walkDir\<close> calls it.\<close>

definition Join :: "string \<Rightarrow> string \<Rightarrow> string" where
  "Join dir name =
     (if dir = [] \<and> name = [] then []
      else if dir = [] then Clean name
      else Clean (dir @ Separator # name))"

text \<open>\<open>filepath.Base\<close>: the last element of a path.\<close>

definition Base :: "string \<Rightarrow> string" where
  "Base path =
     (if path = [] then ''.''
      else case filter (\<lambda>e. e \<noteq> []) (split_sep path) of
             [] \<Rightarrow> [Separator]
           | e # es \<Rightarrow> last (e # es))"

text \<open>
  \<open>filepath.Rel\<close>: both paths are cleaned; equal paths give \<open>.\<close>; a rooted and a
  relative path cannot be related; otherwise the common leading elements are removed, one
  \<open>..\<close> is written for every element left of the base, and the elements left of the
  target follow.  A base whose remaining part starts with \<open>..\<close> cannot be left without
  knowing the working directory, which is an error.
\<close>

fun strip_common :: "string list \<Rightarrow> string list \<Rightarrow> string list \<times> string list" where
  "strip_common (b # bs) (t # ts) =
     (if b = t then strip_common bs ts else (b # bs, t # ts))"
| "strip_common bs ts = (bs, ts)"

definition elements :: "string \<Rightarrow> string list" where
  "elements path = filter (\<lambda>e. e \<noteq> []) (split_sep path)"

definition Rel :: "string \<Rightarrow> string \<Rightarrow> string option" where
  "Rel basepath targpath =
     (let base = Clean basepath; targ = Clean targpath
      in if targ = base then Some ''.''
         else
           let base = (if base = ''.'' then [] else base);
               baseSlashed = (base \<noteq> [] \<and> hd base = Separator);
               targSlashed = (targ \<noteq> [] \<and> hd targ = Separator)
           in if baseSlashed \<noteq> targSlashed then None
              else
                (case strip_common (elements base) (elements targ) of
                   ([], ts) \<Rightarrow> Some (join_sep ts)
                 | (b # bs, ts) \<Rightarrow>
                     if b = ''..'' then None
                     else Some (join_sep (replicate (length (b # bs)) ''..'' @ ts))))"

text \<open>\<open>strings.Count\<close> with a one-byte separator, and \<open>strings.HasPrefix\<close>.\<close>

definition Count :: "string \<Rightarrow> char \<Rightarrow> nat" where
  "Count s sep = length (filter (\<lambda>c. c = sep) s)"

definition HasPrefix :: "string \<Rightarrow> string \<Rightarrow> bool" where
  "HasPrefix s prefix = (length prefix \<le> length s \<and> take (length prefix) s = prefix)"

section \<open>\<open>filepath.WalkDir\<close>\<close>

text \<open>
  The callback of a walk (\<open>fs.WalkDirFunc\<close>) reads and changes variables of the
  enclosing function; here it takes their values as a state and returns the new state
  with its result.  The directory entry is \<open>None\<close> where the library passes nil.
\<close>

type_synonym 's WalkDirFunc =
  "string \<Rightarrow> DirEntry option \<Rightarrow> error option \<Rightarrow> 's \<Rightarrow> error option \<times> 's"

text \<open>
  The library's recursive \<open>walkDir\<close>: the callback is called on the entry; an error, or a
  non-directory, ends the visit (\<open>SkipDir\<close> on a directory is not an error).  A failure
  of \<open>os.ReadDir\<close> is reported by a second call of the callback.  Then the entries are
  visited in order (\<open>walkDirs\<close> is that loop), where \<open>SkipDir\<close> from an entry leaves the
  loop and any other error is returned.
\<close>

fun walkDir :: "'s WalkDirFunc \<Rightarrow> string \<Rightarrow> string \<Rightarrow> fnode \<Rightarrow> 's \<Rightarrow> error option \<times> 's"
and walkDirs ::
  "'s WalkDirFunc \<Rightarrow> string \<Rightarrow> (string \<times> fnode) list \<Rightarrow> 's \<Rightarrow> error option \<times> 's"
where
  "walkDir fn path name File s = fn path (Some \<lparr>Name = name, IsDir = False\<rparr>) None s"
| "walkDir fn path name (Dir rderr dirs) s =
    (case fn path (Some \<lparr>Name = name, IsDir = True\<rparr>) None s of
       (Some e, s1) \<Rightarrow> (if e = SkipDir then None else Some e, s1)
     | (None, s1) \<Rightarrow>
        (if rderr then
           (case fn path (Some \<lparr>Name = name, IsDir = True\<rparr>) (Some PathError) s1 of
              (Some e, s2) \<Rightarrow> (if e = SkipDir then None else Some e, s2)
            | (None, s2) \<Rightarrow> walkDirs fn path dirs s2)
         else walkDirs fn path dirs s1))"
| "walkDirs fn path [] s = (None, s)"
| "walkDirs fn path ((name1, d1) # rest) s =
    (case walkDir fn (Join path name1) name1 d1 s of
       (Some e, s1) \<Rightarrow> (if e = SkipDir then (None, s1) else (Some e, s1))
     | (None, s1) \<Rightarrow> walkDirs fn path rest s1)"

text \<open>
  \<open>filepath.WalkDir\<close>: when \<open>os.Lstat\<close> of the root fails, the callback is called
  once, with a nil entry and the error; \<open>SkipDir\<close> and \<open>SkipAll\<close> at the top are not
  errors.
\<close>

definition WalkDir ::
  "filesystem \<Rightarrow> string \<Rightarrow> 's WalkDirFunc \<Rightarrow> 's \<Rightarrow> error option \<times> 's" where
  "WalkDir fs root fn s =
     (case (case fs root of
              None \<Rightarrow> fn root None (Some PathError) s
            | Some info \<Rightarrow> walkDir fn root (Base root) info s) of
        (err, s') \<Rightarrow>
          (if err = Some SkipDir \<or> err = Some SkipAll then (None, s') else (err, s')))"

section \<open>scanner.go: the depth and ignore policy and the synchronous walker\<close>

definition ignorePatterns :: "string list" where
  "ignorePatterns =
     [''.git'', ''node_modules'', ''target'', ''.cache'', ''vendor'',
      ''__pycache__'', ''.pytest_cache'', ''dist'', ''build'',
      ''.terraform'', ''.vscode'', ''.idea'']"

fun shouldIgnore_loop :: "string \<Rightarrow> string list \<Rightarrow> bool" where
  "shouldIgnore_loop name [] = False"
| "shouldIgnore_loop name (pattern # rest) =
     (if name = pattern then True else shouldIgnore_loop name rest)"

definition shouldIgnore :: "string \<Rightarrow> bool" where
  "shouldIgnore name = shouldIgnore_loop name ignorePatterns"

definition isWithinDepth :: "string \<Rightarrow> string \<Rightarrow> int \<Rightarrow> bool" where
  "isWithinDepth path root maxDepth =
     (case Rel root path of
        None \<Rightarrow> False
      | Some relPath \<Rightarrow> int (Count relPath Separator) \<le> maxDepth)"

text \<open>
  The callback of \<open>scanDirectories\<close>; its state is the slice \<open>directories\<close>.
\<close>

definition scanDirectories_fn :: "string \<Rightarrow> int \<Rightarrow> bool \<Rightarrow> string list WalkDirFunc" where
  "scanDirectories_fn root maxDepth useIgnorePatterns path d err directories =
     (if err \<noteq> None then (None, directories)
      else case d of
        None \<Rightarrow> (Some NilDereference, directories)
      | Some de \<Rightarrow>
          if \<not> IsDir de then (None, directories)
          else if path = root then (None, directories)
          else if \<not> isWithinDepth path root maxDepth then (Some SkipDir, directories)
          else if useIgnorePatterns \<and> shouldIgnore (Name de) then (Some SkipDir, directories)
          else (None, directories @ [path]))"

definition scanDirectories ::
  "filesystem \<Rightarrow> string \<Rightarrow> int \<Rightarrow> bool \<Rightarrow> string list \<times> error option" where
  "scanDirectories fs root maxDepth useIgnorePatterns =
     (case WalkDir fs root (scanDirectories_fn root maxDepth useIgnorePatterns) [] of
        (err, directories) \<Rightarrow> (directories, err))"

text \<open>
  The depth of a path below a root as the number of elements of the relative path: a
  child of the root has depth 1, a grandchild depth 2.
\<close>

definition depth_elements :: "string \<Rightarrow> string \<Rightarrow> nat option" where
  "depth_elements root path = map_option (\<lambda>relPath. length (split_sep relPath)) (Rel root path)"

section \<open>The context and the channel\<close>

text \<open>
  A context is cancelled at most once and stays cancelled.  The scanning goroutine looks
  at its context at certain points of its run (the \<open>select\<close> statements and the calls of
  \<open>ctx.Err\<close>); the state counts these looks in \<open>clock\<close>, and \<open>cancel_at\<close> is the
  number of the first look that finds the context cancelled (\<open>None\<close>: never).  In a
  \<open>select\<close> between a send and \<open>ctx.Done\<close> the send is taken while the context is not
  cancelled (the receiver is assumed to take what is sent); once it is cancelled either
  case can be taken, and \<open>pick_send\<close> says which.  \<open>relay_pick\<close> does the same for the
  \<open>select\<close> statements of the orchestrator, numbered on their own.
\<close>

record ctx_env =
  cancel_at :: "nat option"
  pick_send :: "nat \<Rightarrow> bool"
  relay_pick :: "nat \<Rightarrow> bool"

definition ctx_done :: "ctx_env \<Rightarrow> nat \<Rightarrow> bool" where
  "ctx_done env t = (case cancel_at env of None \<Rightarrow> False | Some c \<Rightarrow> c \<le> t)"

text \<open>\<open>context.Background()\<close> is never cancelled.\<close>

definition Background :: ctx_env where
  "Background = \<lparr>cancel_at = None, pick_send = (\<lambda>_. True), relay_pick = (\<lambda>_. True)\<rparr>"

text \<open>
  The variables of the scanning goroutine: the buffer \<open>batch\<close>, \<open>currentBatchSize\<close>,
  \<open>dirCount\<close>, and the values sent on the channel \<open>ch\<close> so far, in order.
\<close>

record scan_state =
  batch :: "string list"
  currentBatchSize :: int
  dirCount :: int
  ch :: "DirBatch list"
  clock :: nat

definition tick :: "scan_state \<Rightarrow> scan_state" where
  "tick st = st\<lparr>clock := Suc (clock st)\<rparr>"

text \<open>
  \<open>select { case ch <- b: ... case <-ctx.Done(): ... }\<close>; the result says whether \<open>b\<close>
  was sent.
\<close>

definition send :: "ctx_env \<Rightarrow> DirBatch \<Rightarrow> scan_state \<Rightarrow> bool \<times> scan_state" where
  "send env b st =
     (if ctx_done env (clock st) \<and> \<not> pick_send env (clock st) then (False, tick st)
      else (True, tick (st\<lparr>ch := ch st @ [b]\<rparr>)))"

text \<open>Arithmetic of the 64-bit \<open>int\<close>, and the scanner's own \<open>min\<close>.\<close>

definition int64 :: "int \<Rightarrow> int" where
  "int64 x = (x + 2 ^ 63) mod 2 ^ 64 - 2 ^ 63"

definition min_int :: "int \<Rightarrow> int \<Rightarrow> int" where
  "min_int a b = (if a < b then a else b)"

section \<open>The batch emitter\<close>

text \<open>
  \<open>walkDirContext\<close> wraps the callback in a look at the context.
\<close>

definition walkDirContext_fn :: "ctx_env \<Rightarrow> scan_state WalkDirFunc \<Rightarrow> scan_state WalkDirFunc" where
  "walkDirContext_fn env fn path d err st =
     (if ctx_done env (clock st) then (Some Canceled, tick st)
      else fn path d err (tick st))"

definition walkDirContext ::
  "ctx_env \<Rightarrow> filesystem \<Rightarrow> string \<Rightarrow> scan_state WalkDirFunc \<Rightarrow> scan_state
     \<Rightarrow> error option \<times> scan_state" where
  "walkDirContext env fs root fn st = WalkDir fs root (walkDirContext_fn env fn) st"

text \<open>
  The test of \<open>scanWithConfigCtxExcluding\<close> for the excluded subtree;
  \<open>scanWithConfigCtx\<close> has no such test (\<open>None\<close>).
\<close>

definition excluded :: "string option \<Rightarrow> string \<Rightarrow> bool" where
  "excluded excl path =
     (case excl of
        None \<Rightarrow> False
      | Some excludePath \<Rightarrow>
          excludePath \<noteq> [] \<and>
          (path = excludePath \<or> HasPrefix path (excludePath @ [Separator])))"

text \<open>The adaptive batch sizing after a batch has been sent.\<close>

definition adapt :: "ScanConfig \<Rightarrow> scan_state \<Rightarrow> scan_state" where
  "adapt config st =
     (if dirCount st > 500 \<and> currentBatchSize st < MaxBatchSize config
      then st\<lparr>currentBatchSize :=
                 min_int (int64 (currentBatchSize st * 2)) (MaxBatchSize config)\<rparr>
      else st)"

text \<open>
  The block \<open>if len(batch) >= currentBatchSize { ... }\<close>: a copy of the buffer is sent as
  a batch that is not the last, the batch size is adapted and the buffer is emptied.
\<close>

definition flush :: "ctx_env \<Rightarrow> ScanConfig \<Rightarrow> scan_state \<Rightarrow> error option \<times> scan_state" where
  "flush env config st =
     (if int (length (batch st)) \<ge> currentBatchSize st then
        (case send env \<lparr>Directories = batch st, Done = False, Err = None\<rparr> st of
           (False, st1) \<Rightarrow> (Some Canceled, st1)
         | (True, st1) \<Rightarrow> (None, (adapt config st1)\<lparr>batch := []\<rparr>))
      else (None, st))"

text \<open>
  The callback of the two emitters, which differ in the exclusion test only.
\<close>

definition scan_fn :: "ctx_env \<Rightarrow> ScanConfig \<Rightarrow> string option \<Rightarrow> scan_state WalkDirFunc" where
  "scan_fn env config excl path d err st =
     (if ctx_done env (clock st) then (Some Canceled, tick st)
      else
        let st = tick st in
        if err \<noteq> None then (None, st)
        else case d of
          None \<Rightarrow> (Some NilDereference, st)
        | Some de \<Rightarrow>
            if \<not> IsDir de then (None, st)
            else if path = Root config then (None, st)
            else if excluded excl path then (Some SkipDir, st)
            else if \<not> isWithinDepth path (Root config) (MaxDepth config) then (Some SkipDir, st)
            else if UseIgnorePatterns config \<and> shouldIgnore (Name de) then (Some SkipDir, st)
            else flush env config
                   (st\<lparr>batch := batch st @ [path], dirCount := int64 (dirCount st + 1)\<rparr>))"

text \<open>
  \<open>make([]string, 0, n)\<close> panics (\<open>makeslice: cap out of range\<close>) when \<open>n\<close> is negative,
  and when \<open>n\<close> strings of 16 bytes take more than the run time's \<open>maxAlloc\<close>, which is
  \<open>2^48\<close> bytes on a 64-bit system: that is, when \<open>n\<close> is above \<open>2^44\<close>.
\<close>

definition make_panics :: "int \<Rightarrow> bool" where
  "make_panics n = (n < 0 \<or> 2 ^ 44 < n)"

text \<open>
  The goroutine of an emitter, started with the clock at \<open>c0\<close>; the result is its last
  state, whose \<open>ch\<close> is the stream of batches the channel carried before it was closed.
  When \<open>make\<close> panics the program ends and nothing is sent (\<open>None\<close>).  After the walk the
  error is replaced by the context's, and the last batch is sent unless the \<open>select\<close>
  takes \<open>ctx.Done\<close>.
\<close>

definition initial_state :: "ScanConfig \<Rightarrow> nat \<Rightarrow> scan_state" where
  "initial_state config c0 =
     \<lparr>batch = [], currentBatchSize = InitialBatchSize config, dirCount = 0, ch = [],
      clock = c0\<rparr>"

definition finish :: "ctx_env \<Rightarrow> error option \<times> scan_state \<Rightarrow> scan_state" where
  "finish env r =
     (case r of (err, st) \<Rightarrow>
        let err = (if ctx_done env (clock st) then Some Canceled else err);
            st = tick st
        in if batch st \<noteq> [] \<or> err \<noteq> None
           then snd (send env \<lparr>Directories = batch st, Done = True, Err = err\<rparr> st)
           else snd (send env \<lparr>Directories = [], Done = True, Err = err\<rparr> st))"

definition after_walk ::
  "ctx_env \<Rightarrow> filesystem \<Rightarrow> ScanConfig \<Rightarrow> string option \<Rightarrow> nat
     \<Rightarrow> error option \<times> scan_state" where
  "after_walk env fs config excl c0 =
     walkDirContext env fs (Root config) (scan_fn env config excl) (initial_state config c0)"

definition scan_goroutine ::
  "ctx_env \<Rightarrow> filesystem \<Rightarrow> ScanConfig \<Rightarrow> string option \<Rightarrow> nat \<Rightarrow> scan_state option" where
  "scan_goroutine env fs config excl c0 =
     (if make_panics (InitialBatchSize config) then None
      else Some (finish env (after_walk env fs config excl c0)))"

definition scanWithConfigCtx ::
  "ctx_env \<Rightarrow> filesystem \<Rightarrow> ScanConfig \<Rightarrow> nat \<Rightarrow> scan_state option" where
  "scanWithConfigCtx env fs config c0 = scan_goroutine env fs config None c0"

definition scanWithConfigCtxExcluding ::
  "ctx_env \<Rightarrow> filesystem \<Rightarrow> ScanConfig \<Rightarrow> string \<Rightarrow> nat \<Rightarrow> scan_state option" where
  "scanWithConfigCtxExcluding env fs config excludePath c0 =
     scan_goroutine env fs config (Some excludePath) c0"

definition scanDirectoriesAsyncCtx ::
  "ctx_env \<Rightarrow> filesystem \<Rightarrow> string \<Rightarrow> int \<Rightarrow> bool \<Rightarrow> int \<Rightarrow> nat \<Rightarrow> scan_state option" where
  "scanDirectoriesAsyncCtx env fs root maxDepth useIgnorePatterns batchSize c0 =
     scanWithConfigCtx env fs
       \<lparr>Root = root, MaxDepth = maxDepth, UseIgnorePatterns = useIgnorePatterns,
        InitialBatchSize = batchSize, MaxBatchSize = 200\<rparr> c0"

definition scanDirectoriesAsyncCtxExcluding ::
  "ctx_env \<Rightarrow> filesystem \<Rightarrow> string \<Rightarrow> int \<Rightarrow> bool \<Rightarrow> int \<Rightarrow> string \<Rightarrow> nat
     \<Rightarrow> scan_state option" where
  "scanDirectoriesAsyncCtxExcluding env fs root maxDepth useIgnorePatterns batchSize
       excludePath c0 =
     scanWithConfigCtxExcluding env fs
       \<lparr>Root = root, MaxDepth = maxDepth, UseIgnorePatterns = useIgnorePatterns,
        InitialBatchSize = batchSize, MaxBatchSize = 200\<rparr> excludePath c0"

text \<open>
  \<open>scanDirectoriesAsync\<close> scans under \<open>context.Background()\<close>; the result is the stream.
\<close>

definition scanDirectoriesAsync ::
  "filesystem \<Rightarrow> string \<Rightarrow> int \<Rightarrow> bool \<Rightarrow> int \<Rightarrow> DirBatch list option" where
  "scanDirectoriesAsync fs root maxDepth useIgnorePatterns batchSize =
     map_option ch
       (scanDirectoriesAsyncCtx Background fs root maxDepth useIgnorePatterns batchSize 0)"

text \<open>
  The states of the emitter's variables after each call of the callback during the walk,
  starting with the initial state: the walk is run with a callback that also records each
  state it returns.
\<close>

definition traced :: "'s WalkDirFunc \<Rightarrow> ('s \<times> 's list) WalkDirFunc" where
  "traced fn path d err = (\<lambda>(s, tr). case fn path d err s of (r, s') \<Rightarrow> (r, (s', tr @ [s'])))"

definition scan_trace ::
  "ctx_env \<Rightarrow> filesystem \<Rightarrow> ScanConfig \<Rightarrow> string option \<Rightarrow> nat \<Rightarrow> scan_state list" where
  "scan_trace env fs config excl c0 =
     snd (snd (WalkDir fs (Root config)
                 (traced (walkDirContext_fn env (scan_fn env config excl)))
                 (initial_state config c0, [initial_state config c0])))"

text \<open>
  What one call of the callback may do to the batch size and the channel: either nothing
  is sent and the batch size stays, or one batch that is not the last is sent, holding as
  many directories as the batch size was, and the batch size is doubled up to the maximum
  if more than 500 directories have been counted, and stays otherwise.
\<close>

definition emit_step :: "ScanConfig \<Rightarrow> scan_state \<Rightarrow> scan_state \<Rightarrow> bool" where
  "emit_step config s s' =
     (if ch s' = ch s then currentBatchSize s' = currentBatchSize s
      else ch s' = ch s @ [last (ch s')] \<and>
           \<not> Done (last (ch s')) \<and>
           int (length (Directories (last (ch s')))) = currentBatchSize s \<and>
           currentBatchSize s' =
             (if dirCount s' > 500
              then min (2 * currentBatchSize s) (MaxBatchSize config)
              else currentBatchSize s))"

section \<open>The two-phase orchestrator\<close>

text \<open>
  A \<open>select\<close> of the orchestrator takes \<open>ctx.Done\<close> only if the context is cancelled at
  some time; it can then do so at any batch, since the orchestrator may run arbitrarily
  late after the emitter.
\<close>

definition relay_done :: "ctx_env \<Rightarrow> nat \<Rightarrow> bool" where
  "relay_done env k = (cancel_at env \<noteq> None \<and> \<not> relay_pick env k)"

text \<open>
  The loop \<open>for batch := range ...\<close> that passes every batch on as it is (the fallback
  and phase 2): \<open>k\<close> numbers the \<open>select\<close> statements, \<open>out\<close> is what the outward
  channel has carried.
\<close>

fun relay :: "ctx_env \<Rightarrow> nat \<Rightarrow> DirBatch list \<Rightarrow> DirBatch list \<Rightarrow> DirBatch list" where
  "relay env k [] out = out"
| "relay env k (b # rest) out =
     (if relay_done env k then out else relay env (Suc k) rest (out @ [b]))"

text \<open>
  The loop of phase 1; the first component of the result says whether the loop ran to
  the end of the channel, so that phase 2 follows.
\<close>

fun relay_phase1 ::
  "ctx_env \<Rightarrow> nat \<Rightarrow> DirBatch list \<Rightarrow> DirBatch list \<Rightarrow> bool \<times> nat \<times> DirBatch list" where
  "relay_phase1 env k [] out = (True, k, out)"
| "relay_phase1 env k (b # rest) out =
     (if relay_done env k then (False, Suc k, out)
      else
        let out = out @ [\<lparr>Directories = Directories b, Done = False, Err = Err b\<rparr>]
        in if Err b \<noteq> None then (False, Suc k, out)
           else relay_phase1 env (Suc k) rest out)"

text \<open>
  \<open>scanTwoPhasesAsyncCtx\<close>; \<open>getwd\<close> is the result of \<open>os.Getwd()\<close>, \<open>None\<close> for an
  error.  The emitter of phase 2 starts when phase 1 has ended, so its clock goes on from
  that of phase 1.  The result is the stream of the outward channel.
\<close>

definition scanTwoPhasesAsyncCtx ::
  "ctx_env \<Rightarrow> filesystem \<Rightarrow> string option \<Rightarrow> string \<Rightarrow> int \<Rightarrow> bool \<Rightarrow> int
     \<Rightarrow> DirBatch list option" where
  "scanTwoPhasesAsyncCtx env fs getwd startPath maxDepth useIgnorePatterns batchSize =
     (case getwd of
        None \<Rightarrow>
          (case scanDirectoriesAsyncCtx env fs startPath maxDepth useIgnorePatterns batchSize 0 of
             None \<Rightarrow> None
           | Some singlePhase \<Rightarrow> Some (relay env 0 (ch singlePhase) []))
      | Some cwd \<Rightarrow>
          (case scanDirectoriesAsyncCtx env fs cwd maxDepth useIgnorePatterns batchSize 0 of
             None \<Rightarrow> None
           | Some phase1 \<Rightarrow>
               (case relay_phase1 env 0 (ch phase1) [] of
                  (False, k, out) \<Rightarrow> Some out
                | (True, k, out) \<Rightarrow>
                    (case scanDirectoriesAsyncCtxExcluding env fs [Separator] maxDepth
                            useIgnorePatterns batchSize cwd (clock phase1) of
                       None \<Rightarrow> None
                     | Some phase2 \<Rightarrow> Some (relay env k (ch phase2) out)))))"

section \<open>matcher.go\<close>

text \<open>
  The loop \<open>for i, dir := range directories\<close> of \<open>fuzzyMatch\<close>, with the loop index
  and the slice \<open>matches\<close> as arguments.
\<close>

fun fuzzyMatch_loop :: "nat \<Rightarrow> string list \<Rightarrow> Match list \<Rightarrow> Match list" where
  "fuzzyMatch_loop i [] matches = matches"
| "fuzzyMatch_loop i (dir # rest) matches =
     fuzzyMatch_loop (Suc i) rest
       (matches @ [\<lparr>Str = dir, Index = int i, Score = 100, MatchedIndexes = []\<rparr>])"

text \<open>
  \<open>fuzzyMatch\<close>; the library function \<open>fuzzy.Find\<close> is a parameter.
\<close>

definition fuzzyMatch ::
  "(string \<Rightarrow> string list \<Rightarrow> Match list) \<Rightarrow> string \<Rightarrow> string list \<Rightarrow> Match list" where
  "fuzzyMatch Find query directories =
     (if query = [] then fuzzyMatch_loop 0 directories []
      else Find query directories)"

section \<open>Predicates and functions used in the statements\<close>

text \<open>No batch sent so far is a last one, and none carries an error.\<close>

definition not_last :: "scan_state \<Rightarrow> bool" where
  "not_last s = (\<forall>b\<in>set (ch s). \<not> Done b \<and> Err b = None)"


text \<open>The same tree, with no failure of \<open>os.ReadDir\<close>.\<close>

primrec no_read_errors :: "fnode \<Rightarrow> fnode" where
  "no_read_errors File = File"
| "no_read_errors (Dir rderr dirs) = Dir False (map (map_prod id no_read_errors) dirs)"

text \<open>
  The number of directories found so far, which are those sent and those in the buffer;
  \<open>dirCount\<close> is that number, as a 64-bit \<open>int\<close>.  The batch size is positive and at most
  the maximum; the buffer holds fewer directories than the batch size; and a trace that
  starts in a given state, each of whose states has a batch size within these bounds and
  a right \<open>dirCount\<close> and is followed by a state that \<open>emit_step\<close> allows, and all of
  whose states but the last have a buffer below the batch size.
\<close>

definition found :: "scan_state \<Rightarrow> nat" where
  "found s = length (concat (map Directories (ch s))) + length (batch s)"

definition counted :: "scan_state \<Rightarrow> bool" where
  "counted s = (dirCount s = int64 (int (found s)))"

definition threshold_ok :: "ScanConfig \<Rightarrow> scan_state \<Rightarrow> bool" where
  "threshold_ok config s = (0 < currentBatchSize s \<and> currentBatchSize s \<le> MaxBatchSize config)"

definition below_threshold :: "scan_state \<Rightarrow> bool" where
  "below_threshold s = (int (length (batch s)) < currentBatchSize s)"

definition good_trace :: "ScanConfig \<Rightarrow> scan_state \<Rightarrow> scan_state list \<Rightarrow> bool" where
  "good_trace config st0 tr =
     (tr \<noteq> [] \<and> hd tr = st0 \<and> (\<forall>s\<in>set tr. threshold_ok config s \<and> counted s) \<and>
      successively (emit_step config) tr \<and> (\<forall>s\<in>set (butlast tr). below_threshold s))"

text \<open>
  A batch as phase 1 of the orchestrator passes it on, and the property of a stream that
  a batch with \<open>done = true\<close> or with an error can only be its last value.
\<close>

definition phase1_batch :: "DirBatch \<Rightarrow> DirBatch" where
  "phase1_batch b = \<lparr>Directories = Directories b, Done = False, Err = Err b\<rparr>"

definition terminal_last :: "DirBatch list \<Rightarrow> bool" where
  "terminal_last xs =
     (\<forall>i<length xs. Done (xs ! i) \<or> Err (xs ! i) \<noteq> None \<longrightarrow> Suc i = length xs)"

text \<open>
  No directory sent so far or held in the buffer is one that the exclusion test rejects.
\<close>

definition none_excluded :: "string option \<Rightarrow> scan_state \<Rightarrow> bool" where
  "none_excluded excl s =
     ((\<forall>b\<in>set (ch s). \<forall>p\<in>set (Directories b). \<not> excluded excl p) \<and>
      (\<forall>p\<in>set (batch s). \<not> excluded excl p))"

section \<open>Example inputs\<close>

text \<open>
  The directories \<open>level1/level2/level3\<close> below \<open>/home/user\<close>, and nothing else.
\<close>

definition example_tree :: fnode where
  "example_tree =
     Dir False [(''level1'', Dir False [(''level2'', Dir False [(''level3'', Dir False [])])])]"

definition example_fs :: filesystem where
  "example_fs = [''/home/user'' \<mapsto> example_tree]"

text \<open>
  A scan of it in batches of two; a scan of it with an initial batch size of 300 and the
  maximum of 200 that \<open>scanDirectoriesAsyncCtx\<close> sets; and a context that is cancelled
  when the third directory is about to be visited, where every \<open>select\<close> that can take
  \<open>ctx.Done\<close> does.
\<close>

definition example_config :: ScanConfig where
  "example_config =
     \<lparr>Root = ''/home/user'', MaxDepth = 2, UseIgnorePatterns = True, InitialBatchSize = 2,
      MaxBatchSize = 200\<rparr>"

definition over_cap_config :: ScanConfig where
  "over_cap_config =
     \<lparr>Root = ''/home/user'', MaxDepth = 2, UseIgnorePatterns = True, InitialBatchSize = 300,
      MaxBatchSize = 200\<rparr>"

definition cancel_env :: ctx_env where
  "cancel_env = \<lparr>cancel_at = Some 7, pick_send = (\<lambda>_. False), relay_pick = (\<lambda>_. True)\<rparr>"

text \<open>
  A file system in which that tree is also reached from the root directory, and a context
  that is cancelled from the start, where every \<open>select\<close> that can send does.
\<close>

definition root_fs :: filesystem where
  "root_fs = [''/'' \<mapsto> Dir False [(''home'', Dir False [(''user'', example_tree)])],
              ''/home/user'' \<mapsto> example_tree]"

definition cancelled_env :: ctx_env where
  "cancelled_env = \<lparr>cancel_at = Some 0, pick_send = (\<lambda>_. True), relay_pick = (\<lambda>_. True)\<rparr>"

section \<open>Invariants of a walk\<close>

text \<open>
  A property of the state that every call of the callback preserves, as long as the
  callback lets the walk go on, holds when the walk ends; when the callback ends the walk
  with an error, what it establishes for that error holds.  The callback is only ever
  called with an entry or with an error.
\<close>

lemma walkDir_walkDirs_inv:
  fixes fn :: "'s WalkDirFunc"
  assumes cb: "\<forall>path d err s r s'. P s \<longrightarrow> (d \<noteq> None \<or> err \<noteq> None) \<longrightarrow> fn path d err s = (r, s')
                 \<longrightarrow> (if r = None \<or> r = Some SkipDir then P s' else R r s')"
  shows "P s \<Longrightarrow> walkDir fn path name n s = (r, s')
           \<Longrightarrow> (if r = None \<or> r = Some SkipDir then P s' else R r s')"
    and "P s \<Longrightarrow> walkDirs fn path dirs s = (r, s')
           \<Longrightarrow> (if r = None \<or> r = Some SkipDir then P s' else R r s')"
  using cb
proof (induction fn path name n s and fn path dirs s arbitrary: r s' and r s' rule: walkDir_walkDirs.induct)
  case (1 fn path name s)
  have "fn path (Some \<lparr>Name = name, IsDir = False\<rparr>) None s = (r, s')"
    using "1.prems"(2) by simp
  with "1.prems"(3) "1.prems"(1) show ?case by blast
next
  case (2 fn path name rderr dirs s)
  let ?d = "Some \<lparr>Name = name, IsDir = True\<rparr>"
  obtain r1 s1 where f1: "fn path ?d None s = (r1, s1)" by (cases "fn path ?d None s")
  have c1: "if r1 = None \<or> r1 = Some SkipDir then P s1 else R r1 s1"
    using "2.prems"(3) "2.prems"(1) f1 by blast
  show ?case
  proof (cases r1)
    case (Some e)
    with "2.prems"(2) f1 c1 show ?thesis by (auto split: if_splits)
  next
    case None
    note r1 = None
    show ?thesis
    proof (cases rderr)
      case False
      have "walkDirs fn path dirs s1 = (r, s')"
        using "2.prems"(2) f1 r1 False by simp
      from "2.IH"(2)[OF f1[symmetric] r1 False _ this "2.prems"(3)] c1 r1
      show ?thesis by simp
    next
      case True
      obtain r2 s2 where f2: "fn path ?d (Some PathError) s1 = (r2, s2)"
        by (cases "fn path ?d (Some PathError) s1")
      have p1: "P s1" using c1 r1 by simp
      have c2: "if r2 = None \<or> r2 = Some SkipDir then P s2 else R r2 s2"
        using "2.prems"(3) f2 p1 by blast
      show ?thesis
      proof (cases r2)
        case (Some e)
        with "2.prems"(2) f1 f2 r1 True c2 show ?thesis by (auto split: if_splits)
      next
        case None
        have "walkDirs fn path dirs s2 = (r, s')"
          using "2.prems"(2) f1 f2 r1 True None by simp
        from "2.IH"(1)[OF f1[symmetric] r1 True f2[symmetric] None _ this "2.prems"(3)] c2 None
        show ?thesis by simp
      qed
    qed
  qed
next
  case (3 fn path s)
  from "3.prems"(1,2) show ?case by simp
next
  case (4 fn path name1 d1 rest s)
  obtain r1 s1 where w1: "walkDir fn (Join path name1) name1 d1 s = (r1, s1)"
    by (cases "walkDir fn (Join path name1) name1 d1 s")
  have c1: "if r1 = None \<or> r1 = Some SkipDir then P s1 else R r1 s1"
    using "4.IH"(1)[OF "4.prems"(1) w1 "4.prems"(3)] by simp
  show ?case
  proof (cases r1)
    case (Some e)
    with "4.prems"(2) w1 c1 show ?thesis by (auto split: if_splits)
  next
    case None
    have "walkDirs fn path rest s1 = (r, s')"
      using "4.prems"(2) w1 None by simp
    from "4.IH"(2)[OF w1[symmetric] None _ this "4.prems"(3)] c1 None
    show ?thesis by simp
  qed
qed

lemma WalkDir_inv:
  fixes fn :: "'s WalkDirFunc"
  assumes cb: "\<forall>path d err s r s'. P s \<longrightarrow> (d \<noteq> None \<or> err \<noteq> None) \<longrightarrow> fn path d err s = (r, s')
                 \<longrightarrow> (if r = None \<or> r = Some SkipDir then P s' else R r s')"
    and skipall: "\<forall>s. \<not> R (Some SkipAll) s"
    and "P s" and "WalkDir fs root fn s = (r, s')"
  shows "if r = None then P s' else R r s'"
proof -
  obtain r1 s1 where f1:
    "(case fs root of None \<Rightarrow> fn root None (Some PathError) s
      | Some info \<Rightarrow> walkDir fn root (Base root) info s) = (r1, s1)"
    by (cases "case fs root of None \<Rightarrow> fn root None (Some PathError) s
      | Some info \<Rightarrow> walkDir fn root (Base root) info s")
  have c1: "if r1 = None \<or> r1 = Some SkipDir then P s1 else R r1 s1"
  proof (cases "fs root")
    case None
    with f1 have "fn root None (Some PathError) s = (r1, s1)" by simp
    with cb assms(3) show ?thesis by blast
  next
    case (Some info)
    with f1 have "walkDir fn root (Base root) info s = (r1, s1)" by simp
    from walkDir_walkDirs_inv(1)[of P fn R, OF cb assms(3) this] show ?thesis .
  qed
  have "(r, s') = (if r1 = Some SkipDir \<or> r1 = Some SkipAll then (None, s1) else (r1, s1))"
    using assms(4) f1 by (simp add: WalkDir_def)
  with c1 skipall show ?thesis
    by (auto split: if_splits)
qed

section \<open>The synchronous walker and the depth policy\<close>

lemma length_split_sep: "length (split_sep s) = Suc (Count s Separator)"
  by (induction s) (auto simp: Count_def split: list.splits)

lemma scanDirectories_fn_inv:
  assumes "\<forall>p\<in>set dirs. p \<noteq> root \<and> isWithinDepth p root maxDepth"
    and "d \<noteq> None \<or> err \<noteq> None"
    and "scanDirectories_fn root maxDepth ig path d err dirs = (r, dirs')"
  shows "(r = None \<or> r = Some SkipDir) \<and>
         (\<forall>p\<in>set dirs'. p \<noteq> root \<and> isWithinDepth p root maxDepth)"
  using assms by (auto simp: scanDirectories_fn_def split: if_splits option.splits)

lemma scanDirectories_inv:
  assumes "scanDirectories fs root maxDepth ig = (dirs, err)"
  shows "err = None \<and> (\<forall>p\<in>set dirs. p \<noteq> root \<and> isWithinDepth p root maxDepth)"
proof -
  let ?P = "\<lambda>ds. \<forall>p\<in>set ds. p \<noteq> root \<and> isWithinDepth p root maxDepth"
  have w: "WalkDir fs root (scanDirectories_fn root maxDepth ig) [] = (err, dirs)"
    using assms by (simp add: scanDirectories_def split: prod.splits)
  have cb: "\<forall>path d e s r s'. ?P s \<longrightarrow> (d \<noteq> None \<or> e \<noteq> None) \<longrightarrow>
              scanDirectories_fn root maxDepth ig path d e s = (r, s') \<longrightarrow>
              (if r = None \<or> r = Some SkipDir then ?P s' else False)"
    using scanDirectories_fn_inv[of _ root maxDepth _ _ ig] by (metis (no_types, lifting))
  from WalkDir_inv[of ?P "scanDirectories_fn root maxDepth ig" "\<lambda>_ _. False", OF cb _ _ w]
  show ?thesis by (auto split: if_splits)
qed

lemma isWithinDepth_elements:
  "isWithinDepth path root maxDepth \<longleftrightarrow>
     (case depth_elements root path of None \<Rightarrow> False | Some n \<Rightarrow> int n - 1 \<le> maxDepth)"
  by (simp add: isWithinDepth_def depth_elements_def length_split_sep split: option.splits)

text \<open>
  C7, as amended.  \<open>isWithinDepth\<close> counts the path separators of the relative path
  from root to path, which is one less than the number of its elements, and returns true
  iff that count is at most \<open>maxDepth\<close>; it returns false when the relative path cannot
  be computed.  For \<open>/home/user/level1/level2/level3\<close> below \<open>/home/user\<close> and
  \<open>maxDepth = 2\<close> the result is true: the relative path has three elements and two
  separators.
\<close>

theorem isWithinDepth_counts_separators:
  "isWithinDepth path root maxDepth =
     (case depth_elements root path of None \<Rightarrow> False | Some n \<Rightarrow> int n - 1 \<le> maxDepth)
   \<and> isWithinDepth ''/home/user/level1/level2/level3'' ''/home/user'' 2"
proof
  show "isWithinDepth path root maxDepth =
     (case depth_elements root path of None \<Rightarrow> False | Some n \<Rightarrow> int n - 1 \<le> maxDepth)"
    by (rule isWithinDepth_elements)
  show "isWithinDepth ''/home/user/level1/level2/level3'' ''/home/user'' 2"
    by code_simp
qed

text \<open>
  C7 as stated fails: the path of the example has three elements relative to the root,
  more than \<open>maxDepth = 2\<close>, and is within depth all the same.
\<close>

theorem isWithinDepth_elements_counterexample:
  "isWithinDepth ''/home/user/level1/level2/level3'' ''/home/user'' 2 \<and>
   depth_elements ''/home/user'' ''/home/user/level1/level2/level3'' = Some 3"
  by code_simp

text \<open>
  C6, as amended.  No path returned by \<open>scanDirectories\<close> is the root, and every
  returned path has at most \<open>maxDepth + 1\<close> elements relative to the root: the walker
  compares the number of separators of the relative path with \<open>maxDepth\<close>.
\<close>

theorem scanDirectories_depth_bound:
  assumes "p \<in> set (fst (scanDirectories fs root maxDepth ig))"
  shows "p \<noteq> root \<and> (\<exists>n. depth_elements root p = Some n \<and> int n \<le> maxDepth + 1)"
proof -
  obtain dirs err where sd: "scanDirectories fs root maxDepth ig = (dirs, err)"
    by (cases "scanDirectories fs root maxDepth ig")
  from scanDirectories_inv[OF sd] assms sd
  have "p \<noteq> root" and "isWithinDepth p root maxDepth" by auto
  then show ?thesis
    by (auto simp: isWithinDepth_elements split: option.splits)
qed

text \<open>
  An instance: the directory \<open>level3\<close> of the example is returned for \<open>maxDepth = 2\<close>; it has
  three elements relative to the root.
\<close>

theorem scanDirectories_depth_bound_witness:
  "''/home/user/level1/level2/level3'' \<in> set (fst (scanDirectories example_fs ''/home/user'' 2 True))
   \<and> ''/home/user/level1/level2/level3'' \<noteq> ''/home/user''
   \<and> (\<exists>n. depth_elements ''/home/user'' ''/home/user/level1/level2/level3'' = Some n
            \<and> int n \<le> 2 + 1)"
proof -
  have h: "''/home/user/level1/level2/level3''
             \<in> set (fst (scanDirectories example_fs ''/home/user'' 2 True))"
    by code_simp
  from scanDirectories_depth_bound[OF h] h show ?thesis by simp
qed

text \<open>
  C6 as stated fails: with \<open>maxDepth = 2\<close> the walker returns a directory three levels
  below the root.
\<close>

theorem scanDirectories_depth_counterexample:
  "scanDirectories example_fs ''/home/user'' 2 True =
     ([''/home/user/level1'', ''/home/user/level1/level2'', ''/home/user/level1/level2/level3''],
      None)
   \<and> depth_elements ''/home/user'' ''/home/user/level1/level2/level3'' = Some 3"
  by code_simp

section \<open>The stream of an emitter\<close>

lemma ctx_done_mono: "ctx_done env t \<Longrightarrow> t \<le> t' \<Longrightarrow> ctx_done env t'"
  by (auto simp: ctx_done_def split: option.splits)

lemma ctx_done_never: "cancel_at env = None \<Longrightarrow> \<not> ctx_done env t"
  by (simp add: ctx_done_def)

lemma send_cases:
  assumes "send env b s = (ok, s')"
  shows "clock s' = Suc (clock s) \<and> batch s' = batch s \<and> currentBatchSize s' = currentBatchSize s
         \<and> dirCount s' = dirCount s
         \<and> (if ok then ch s' = ch s @ [b]
             else ch s' = ch s \<and> ctx_done env (clock s) \<and> \<not> pick_send env (clock s))"
  using assms by (auto simp: send_def tick_def split: if_splits)

lemma adapt_frame:
  "ch (adapt config s) = ch s \<and> clock (adapt config s) = clock s \<and> batch (adapt config s) = batch s
   \<and> dirCount (adapt config s) = dirCount s"
  by (simp add: adapt_def)

lemma flush_not_last:
  assumes "not_last s" and "flush env config s = (r, s')"
  shows "if r = None then not_last s'
         else not_last s' \<and> r = Some Canceled \<and> ctx_done env (clock s')"
proof (cases "int (length (batch s)) \<ge> currentBatchSize s")
  case False
  with assms show ?thesis by (simp add: flush_def)
next
  case True
  let ?b = "\<lparr>Directories = batch s, Done = False, Err = None\<rparr>"
  obtain ok s1 where sd: "send env ?b s = (ok, s1)" by (cases "send env ?b s")
  note sc = send_cases[OF sd]
  show ?thesis
  proof (cases ok)
    case True
    with assms \<open>int (length (batch s)) \<ge> currentBatchSize s\<close> sd sc
    show ?thesis by (auto simp: flush_def not_last_def adapt_frame)
  next
    case False
    with sc have "ctx_done env (Suc (clock s))" using ctx_done_mono[of env "clock s" "Suc (clock s)"] by simp
    with False assms \<open>int (length (batch s)) \<ge> currentBatchSize s\<close> sd sc
    show ?thesis by (auto simp: flush_def not_last_def)
  qed
qed

lemma scan_fn_not_last:
  assumes "not_last s" and "d \<noteq> None \<or> err \<noteq> None"
    and "walkDirContext_fn env (scan_fn env config excl) path d err s = (r, s')"
  shows "if r = None \<or> r = Some SkipDir then not_last s'
         else not_last s' \<and> r = Some Canceled \<and> ctx_done env (clock s')"
proof (cases "ctx_done env (clock s)")
  case True
  with assms ctx_done_mono[of env "clock s" "Suc (clock s)"] show ?thesis
    by (auto simp: walkDirContext_fn_def tick_def not_last_def)
next
  case False
  note nd1 = False
  show ?thesis
  proof (cases "ctx_done env (Suc (clock s))")
    case True
    with nd1 assms ctx_done_mono[of env "Suc (clock s)" "Suc (Suc (clock s))"] show ?thesis
      by (auto simp: walkDirContext_fn_def scan_fn_def tick_def not_last_def)
  next
    case False
    let ?s2 = "tick (tick s)"
    have nl2: "not_last ?s2" using assms(1) by (simp add: not_last_def tick_def)
    show ?thesis
    proof (cases "err = None \<and> (\<exists>de. d = Some de \<and> IsDir de \<and> path \<noteq> Root config \<and> \<not> excluded excl path
                   \<and> isWithinDepth path (Root config) (MaxDepth config)
                   \<and> \<not> (UseIgnorePatterns config \<and> shouldIgnore (Name de)))")
      case True
      then have fl: "flush env config (?s2\<lparr>batch := batch ?s2 @ [path], dirCount := int64 (dirCount ?s2 + 1)\<rparr>) = (r, s')"
        using assms(3) nd1 False by (auto simp: walkDirContext_fn_def scan_fn_def Let_def tick_def)
      have "not_last (?s2\<lparr>batch := batch ?s2 @ [path], dirCount := int64 (dirCount ?s2 + 1)\<rparr>)"
        using nl2 by (simp add: not_last_def)
      from flush_not_last[OF this fl] show ?thesis by (auto split: if_splits)
    next
      case no: False
      then have "s' = ?s2 \<and> (r = None \<or> r = Some SkipDir)"
        using assms(2,3) nd1 False
        by (auto simp: walkDirContext_fn_def scan_fn_def Let_def tick_def split: if_splits option.splits)
      with nl2 show ?thesis by auto
    qed
  qed
qed

lemma after_walk_not_last:
  assumes "after_walk env fs config excl c0 = (err, st1)"
  shows "not_last st1 \<and> (err = None \<or> err = Some Canceled \<and> ctx_done env (clock st1))"
proof -
  let ?P = not_last
  let ?R = "\<lambda>r s. not_last s \<and> r = Some Canceled \<and> ctx_done env (clock s)"
  let ?fn = "walkDirContext_fn env (scan_fn env config excl)"
  have cb: "\<forall>path d e s r s'. ?P s \<longrightarrow> (d \<noteq> None \<or> e \<noteq> None) \<longrightarrow> ?fn path d e s = (r, s') \<longrightarrow>
              (if r = None \<or> r = Some SkipDir then ?P s' else ?R r s')"
    using scan_fn_not_last by blast
  have w: "WalkDir fs (Root config) ?fn (initial_state config c0) = (err, st1)"
    using assms by (simp add: after_walk_def walkDirContext_def)
  have p0: "?P (initial_state config c0)" by (simp add: not_last_def initial_state_def)
  from WalkDir_inv[of ?P ?fn ?R, OF cb _ p0 w] show ?thesis by (auto split: if_splits)
qed

lemma finish_stream:
  assumes "after_walk env fs config excl c0 = (err, st1)"
    and "finish env (err, st1) = st"
  shows "\<exists>e. e = (if ctx_done env (clock st1) then Some Canceled else None) \<and>
          (ch st = ch st1 @ [\<lparr>Directories = batch st1, Done = True, Err = e\<rparr>]
           \<or> ch st = ch st1 \<and> ctx_done env (Suc (clock st1)) \<and> \<not> pick_send env (Suc (clock st1)))"
proof -
  from after_walk_not_last[OF assms(1)]
  have e: "err = None \<or> err = Some Canceled \<and> ctx_done env (clock st1)" by simp
  let ?e = "if ctx_done env (clock st1) then Some Canceled else err"
  have e': "?e = (if ctx_done env (clock st1) then Some Canceled else None)" using e by auto
  let ?b = "\<lparr>Directories = batch st1, Done = True, Err = ?e\<rparr>"
  have st: "st = snd (send env ?b (tick st1))"
    using assms(2) by (auto simp: finish_def Let_def tick_def)
  obtain ok s2 where sd: "send env ?b (tick st1) = (ok, s2)" by (cases "send env ?b (tick st1)")
  from send_cases[OF sd] st sd e' show ?thesis
    by (cases ok) (auto simp: tick_def)
qed

lemma goroutine_runs:
  assumes "0 \<le> InitialBatchSize config" and "InitialBatchSize config \<le> 2 ^ 44"
  shows "scan_goroutine env fs config excl c0 = Some (finish env (after_walk env fs config excl c0))"
  using assms by (simp add: scan_goroutine_def make_panics_def)

text \<open>
  Outside these bounds \<open>make\<close> panics and there is no stream.
\<close>

lemma goroutine_panics:
  "scanDirectoriesAsync example_fs ''/home/user'' 2 True (- 1) = None \<and>
   scanDirectoriesAsync example_fs ''/home/user'' 2 True (2 ^ 44 + 1) = None \<and>
   scanDirectoriesAsync example_fs ''/home/user'' 2 True (2 ^ 62) = None \<and>
   scanDirectoriesAsync example_fs ''/home/user'' 2 True (2 ^ 44) \<noteq> None"
  by code_simp

text \<open>
  C1, as amended.  An emitter whose initial batch size is not negative and at most
  \<open>2^44\<close> (so that \<open>make\<close> does not panic) runs to its end, whatever the context does.  In the stream it produces, a batch with \<open>done = true\<close> can
  only be the last value, so there is at most one; an error is carried only by a batch
  with \<open>done = true\<close>; that batch carries \<open>Canceled\<close> if the context was found cancelled
  when the walk had ended, and no error otherwise; and if the context is never cancelled
  the stream ends with a \<open>done\<close> batch without error.  (When the context is cancelled,
  the last \<open>select\<close> may take \<open>ctx.Done\<close>, and the stream then has no \<open>done\<close> batch.)
  \<open>scanWithConfigCtx\<close> is \<open>scan_goroutine\<close> without an excluded path,
  \<open>scanWithConfigCtxExcluding\<close> with one.
\<close>

theorem emitter_stream:
  assumes "0 \<le> InitialBatchSize config" and "InitialBatchSize config \<le> 2 ^ 44"
  shows "\<exists>st. scan_goroutine env fs config excl c0 = Some st
     \<and> (\<forall>i<length (ch st). Done (ch st ! i) \<longrightarrow> Suc i = length (ch st))
     \<and> (\<forall>b\<in>set (ch st). Err b \<noteq> None \<longrightarrow> Done b)
     \<and> (\<forall>b\<in>set (ch st). Done b \<longrightarrow>
           Err b = (if ctx_done env (clock (snd (after_walk env fs config excl c0)))
                    then Some Canceled else None))
     \<and> (cancel_at env = None \<longrightarrow> ch st \<noteq> [] \<and> Done (last (ch st)) \<and> Err (last (ch st)) = None)"
proof -
  obtain err st1 where aw: "after_walk env fs config excl c0 = (err, st1)"
    by (cases "after_walk env fs config excl c0")
  define st where "st = finish env (err, st1)"
  have sg: "scan_goroutine env fs config excl c0 = Some st"
    using goroutine_runs[OF assms, of env fs excl c0] aw by (simp add: st_def)
  from after_walk_not_last[OF aw] have nl: "\<forall>b\<in>set (ch st1). \<not> Done b \<and> Err b = None"
    by (simp add: not_last_def)
  define e where "e = (if ctx_done env (clock st1) then Some Canceled else None)"
  define fb where "fb = \<lparr>Directories = batch st1, Done = True, Err = e\<rparr>"
  from finish_stream[OF aw st_def[symmetric]]
  have cases: "ch st = ch st1 @ [fb] \<or> ch st = ch st1 \<and> ctx_done env (Suc (clock st1))"
    by (auto simp: e_def fb_def)
  have p1: "\<forall>i<length (ch st). Done (ch st ! i) \<longrightarrow> Suc i = length (ch st)"
  proof (intro allI impI)
    fix i assume i: "i < length (ch st)" and d: "Done (ch st ! i)"
    from cases show "Suc i = length (ch st)"
    proof
      assume c: "ch st = ch st1 @ [fb]"
      show ?thesis
      proof (cases "i < length (ch st1)")
        case True
        then have "ch st ! i \<in> set (ch st1)" using c by (simp add: nth_append)
        with nl d show ?thesis by blast
      next
        case False
        with i c show ?thesis by simp
      qed
    next
      assume c: "ch st = ch st1 \<and> ctx_done env (Suc (clock st1))"
      then have "ch st ! i \<in> set (ch st1)" using i by simp
      with nl d show ?thesis by blast
    qed
  qed
  have p2: "\<forall>b\<in>set (ch st). Err b \<noteq> None \<longrightarrow> Done b"
    using cases nl by (auto simp: fb_def)
  have p3: "\<forall>b\<in>set (ch st). Done b \<longrightarrow>
           Err b = (if ctx_done env (clock (snd (after_walk env fs config excl c0)))
                    then Some Canceled else None)"
    using cases nl aw by (auto simp: fb_def e_def)
  have p4: "cancel_at env = None \<longrightarrow> ch st \<noteq> [] \<and> Done (last (ch st)) \<and> Err (last (ch st)) = None"
    using cases ctx_done_never[of env] by (auto simp: fb_def e_def)
  show ?thesis
  proof (rule exI[of _ st], intro conjI)
    show "scan_goroutine env fs config excl c0 = Some st" by (rule sg)
  qed (rule p1 p2 p3 p4)+
qed

text \<open>
  An instance: the scan of the example under a context that is never cancelled ends with a
  \<open>done\<close> batch without error.
\<close>

theorem emitter_stream_witness:
  "0 \<le> InitialBatchSize example_config \<and> InitialBatchSize example_config \<le> 2 ^ 44 \<and>
   (\<exists>st. scan_goroutine Background example_fs example_config None 0 = Some st \<and>
         ch st \<noteq> [] \<and> Done (last (ch st)) \<and> Err (last (ch st)) = None)"
proof -
  have h: "0 \<le> InitialBatchSize example_config" by (simp add: example_config_def)
  have h': "InitialBatchSize example_config \<le> 2 ^ 44" by (simp add: example_config_def)
  have nc: "cancel_at Background = None" by (simp add: Background_def)
  from emitter_stream[OF h h', of Background example_fs None 0] nc h h'
  show ?thesis by blast
qed

text \<open>
  C1 as stated fails: the context is cancelled after the first batch, the walk is
  abandoned, and the last \<open>select\<close> takes \<open>ctx.Done\<close>; the stream ends after the first
  batch, without a batch with \<open>done = true\<close> and without \<open>Canceled\<close>.
\<close>

theorem emitter_stream_counterexample:
  "map_option ch (scanWithConfigCtx cancel_env example_fs example_config 0) =
     Some [\<lparr>Directories = [''/home/user/level1'', ''/home/user/level1/level2''],
            Done = False, Err = None\<rparr>]"
  by code_simp

section \<open>The synchronous walker and the emitter find the same directories\<close>

lemma walkDir_walkDirs_sim:
  fixes f :: "'s WalkDirFunc" and g :: "'t WalkDirFunc"
  assumes cb: "\<forall>path d err s t. S s t \<longrightarrow>
                 fst (f path d err s) = fst (g path d err t) \<and>
                 S (snd (f path d err s)) (snd (g path d err t))"
  shows "S s t \<Longrightarrow> fst (walkDir f path name n s) = fst (walkDir g path name n t) \<and>
                 S (snd (walkDir f path name n s)) (snd (walkDir g path name n t))"
    and "S s t \<Longrightarrow> fst (walkDirs f path dirs s) = fst (walkDirs g path dirs t) \<and>
                 S (snd (walkDirs f path dirs s)) (snd (walkDirs g path dirs t))"
  using cb
proof (induction f path name n s and f path dirs s arbitrary: t and t rule: walkDir_walkDirs.induct)
  case (1 fn path name s)
  from "1.prems"(2) "1.prems"(1) show ?case by simp
next
  case (2 fn path name rderr dirs s)
  let ?d = "Some \<lparr>Name = name, IsDir = True\<rparr>"
  obtain r1 s1 where f1: "fn path ?d None s = (r1, s1)" by (cases "fn path ?d None s")
  obtain q1 t1 where g1: "g path ?d None t = (q1, t1)" by (cases "g path ?d None t")
  from "2.prems"(2) "2.prems"(1) have "fst (fn path ?d None s) = fst (g path ?d None t) \<and>
      S (snd (fn path ?d None s)) (snd (g path ?d None t))" by blast
  with f1 g1 have e1: "q1 = r1" and S1: "S s1 t1" by simp_all
  show ?case
  proof (cases r1)
    case (Some e)
    with f1 g1 e1 S1 show ?thesis by simp
  next
    case None
    note r1 = None
    show ?thesis
    proof (cases rderr)
      case False
      from "2.IH"(2)[OF f1[symmetric] r1 False S1 "2.prems"(2)] f1 g1 e1 r1 False
      show ?thesis by simp
    next
      case True
      obtain r2 s2 where f2: "fn path ?d (Some PathError) s1 = (r2, s2)"
        by (cases "fn path ?d (Some PathError) s1")
      obtain q2 t2 where g2: "g path ?d (Some PathError) t1 = (q2, t2)"
        by (cases "g path ?d (Some PathError) t1")
      from "2.prems"(2) S1 have "fst (fn path ?d (Some PathError) s1) = fst (g path ?d (Some PathError) t1) \<and>
        S (snd (fn path ?d (Some PathError) s1)) (snd (g path ?d (Some PathError) t1))" by blast
      with f2 g2 have e2: "q2 = r2" and S2: "S s2 t2" by simp_all
      show ?thesis
      proof (cases r2)
        case (Some e)
        with f1 g1 e1 r1 True f2 g2 e2 S2 show ?thesis by simp
      next
        case None
        from "2.IH"(1)[OF f1[symmetric] r1 True f2[symmetric] None S2 "2.prems"(2)]
          f1 g1 e1 r1 True f2 g2 e2 None
        show ?thesis by simp
      qed
    qed
  qed
next
  case (3 fn path s)
  from "3.prems"(1) show ?case by simp
next
  case (4 fn path name1 d1 rest s)
  obtain r1 s1 where w1: "walkDir fn (Join path name1) name1 d1 s = (r1, s1)"
    by (cases "walkDir fn (Join path name1) name1 d1 s")
  obtain q1 t1 where v1: "walkDir g (Join path name1) name1 d1 t = (q1, t1)"
    by (cases "walkDir g (Join path name1) name1 d1 t")
  from "4.IH"(1)[OF "4.prems"(1) "4.prems"(2)] w1 v1
  have e1: "q1 = r1" and S1: "S s1 t1" by simp_all
  show ?case
  proof (cases r1)
    case (Some e)
    with w1 v1 e1 S1 show ?thesis by simp
  next
    case None
    from "4.IH"(2)[OF w1[symmetric] None S1 "4.prems"(2)] w1 v1 e1 None
    show ?thesis by simp
  qed
qed

lemma WalkDir_sim:
  fixes f :: "'s WalkDirFunc" and g :: "'t WalkDirFunc"
  assumes cb: "\<forall>path d err s t. S s t \<longrightarrow>
                 fst (f path d err s) = fst (g path d err t) \<and>
                 S (snd (f path d err s)) (snd (g path d err t))"
    and "S s t"
  shows "fst (WalkDir fs root f s) = fst (WalkDir fs root g t) \<and>
         S (snd (WalkDir fs root f s)) (snd (WalkDir fs root g t))"
proof (cases "fs root")
  case None
  from cb assms(2) have "fst (f root None (Some PathError) s) = fst (g root None (Some PathError) t) \<and>
      S (snd (f root None (Some PathError) s)) (snd (g root None (Some PathError) t))" by blast
  with None show ?thesis
    by (auto simp: WalkDir_def split: prod.splits)
next
  case (Some info)
  from walkDir_walkDirs_sim(1)[of S f g, OF cb assms(2)]
  have "fst (walkDir f root (Base root) info s) = fst (walkDir g root (Base root) info t) \<and>
      S (snd (walkDir f root (Base root) info s)) (snd (walkDir g root (Base root) info t))" .
  with Some show ?thesis
    by (auto simp: WalkDir_def split: prod.splits)
qed





section \<open>Traversal errors\<close>

lemma scanDirectories_fn_error:
  "scanDirectories_fn root maxDepth ig path d (Some e) s = (None, s)"
  by (simp add: scanDirectories_fn_def)

lemma walk_no_read_errors:
  shows "fn = scanDirectories_fn root maxDepth ig \<Longrightarrow>
           walkDir fn path name (no_read_errors n) s = walkDir fn path name n s"
    and "fn = scanDirectories_fn root maxDepth ig \<Longrightarrow>
           walkDirs fn path (map (map_prod id no_read_errors) dirs) s = walkDirs fn path dirs s"
proof (induction fn path name n s and fn path dirs s rule: walkDir_walkDirs.induct)
  case (1 fn path name s)
  show ?case by simp
next
  case (2 fn path name rderr dirs s)
  let ?d = "Some \<lparr>Name = name, IsDir = True\<rparr>"
  obtain r1 s1 where f1: "fn path ?d None s = (r1, s1)" by (cases "fn path ?d None s")
  show ?case
  proof (cases r1)
    case (Some e)
    with f1 show ?thesis by simp
  next
    case None
    note r1 = None
    show ?thesis
    proof (cases rderr)
      case False
      from "2.IH"(2)[OF f1[symmetric] r1 False "2.prems"] f1 r1 False
      show ?thesis by (simp add: id_def)
    next
      case True
      have f2: "fn path ?d (Some PathError) s1 = (None, s1)"
        using "2.prems" by (simp add: scanDirectories_fn_error)
      from "2.IH"(1)[OF f1[symmetric] r1 True f2[symmetric] refl "2.prems"] f1 r1 True f2
      show ?thesis by (simp add: id_def)
    qed
  qed
next
  case (3 fn path s)
  show ?case by simp
next
  case (4 fn path name1 d1 rest s)
  obtain r1 s1 where w1: "walkDir fn (Join path name1) name1 d1 s = (r1, s1)"
    by (cases "walkDir fn (Join path name1) name1 d1 s")
  have w1': "walkDir fn (Join path name1) name1 (no_read_errors d1) s = (r1, s1)"
    using "4.IH"(1)[OF "4.prems"] w1 by simp
  show ?case
  proof (cases r1)
    case (Some e)
    with w1 w1' show ?thesis by simp
  next
    case None
    from "4.IH"(2)[OF w1[symmetric] None "4.prems"] w1 w1' None
    show ?thesis by (simp add: id_def)
  qed
qed

lemma scanDirectories_no_read_errors:
  "scanDirectories (map_option no_read_errors \<circ> fs) root maxDepth ig =
     scanDirectories fs root maxDepth ig"
  by (cases "fs root")
     (simp_all add: scanDirectories_def WalkDir_def walk_no_read_errors(1)[OF refl])

lemma scanDirectories_no_root:
  "fs root = None \<Longrightarrow> scanDirectories fs root maxDepth ig = ([], None)"
  by (simp add: scanDirectories_def WalkDir_def scanDirectories_fn_def)

lemma stream_errors:
  assumes "0 \<le> InitialBatchSize config" and "InitialBatchSize config \<le> 2 ^ 44"
  shows "\<exists>st. scan_goroutine env fs config excl c0 = Some st \<and>
           (\<forall>b\<in>set (ch st). Err b = None \<or> Err b = Some Canceled \<and> Done b \<and> cancel_at env \<noteq> None)"
proof -
  obtain err st1 where aw: "after_walk env fs config excl c0 = (err, st1)"
    by (cases "after_walk env fs config excl c0")
  define st where "st = finish env (err, st1)"
  have sg: "scan_goroutine env fs config excl c0 = Some st"
    using goroutine_runs[OF assms, of env fs excl c0] aw by (simp add: st_def)
  from after_walk_not_last[OF aw] have nl: "\<forall>b\<in>set (ch st1). \<not> Done b \<and> Err b = None"
    by (simp add: not_last_def)
  have cd: "ctx_done env (clock st1) \<Longrightarrow> cancel_at env \<noteq> None"
    using ctx_done_never[of env] by blast
  from finish_stream[OF aw st_def[symmetric]] nl cd
  have "\<forall>b\<in>set (ch st). Err b = None \<or> Err b = Some Canceled \<and> Done b \<and> cancel_at env \<noteq> None"
    by (auto split: if_splits)
  with sg show ?thesis by blast
qed

text \<open>
  C3, as amended.  Every traversal error is swallowed, that of the scan root included:
  \<open>scanDirectories\<close> never returns an error; for a root that \<open>os.Lstat\<close> cannot
  reach it returns no directory and no error; and failures of \<open>os.ReadDir\<close> do not
  change its result, the entries that were read are visited as if nothing had failed.
  A streaming emitter whose initial batch size is not negative and at most \<open>2^44\<close>
  produces a stream, in which a batch carries no error, or it is a \<open>done\<close> batch that
  carries \<open>Canceled\<close>, which needs the context to be cancelled.
\<close>

theorem traversal_errors_swallowed:
  "snd (scanDirectories fs root maxDepth ig) = None \<and>
   (fs root = None \<longrightarrow> scanDirectories fs root maxDepth ig = ([], None)) \<and>
   scanDirectories (map_option no_read_errors \<circ> fs) root maxDepth ig =
     scanDirectories fs root maxDepth ig \<and>
   (0 \<le> InitialBatchSize config \<and> InitialBatchSize config \<le> 2 ^ 44 \<longrightarrow>
      (\<exists>st. scan_goroutine env fs config excl c0 = Some st \<and>
         (\<forall>b\<in>set (ch st).
            Err b = None \<or> Err b = Some Canceled \<and> Done b \<and> cancel_at env \<noteq> None)))"
proof (intro conjI impI)
  obtain dirs err where sd: "scanDirectories fs root maxDepth ig = (dirs, err)"
    by (cases "scanDirectories fs root maxDepth ig")
  from scanDirectories_inv[OF sd] sd
  show "snd (scanDirectories fs root maxDepth ig) = None" by simp
next
  assume "fs root = None"
  then show "scanDirectories fs root maxDepth ig = ([], None)"
    by (rule scanDirectories_no_root)
next
  show "scanDirectories (map_option no_read_errors \<circ> fs) root maxDepth ig =
     scanDirectories fs root maxDepth ig"
    by (rule scanDirectories_no_read_errors)
next
  assume "0 \<le> InitialBatchSize config \<and> InitialBatchSize config \<le> 2 ^ 44"
  then have "0 \<le> InitialBatchSize config" and "InitialBatchSize config \<le> 2 ^ 44"
    by simp_all
  then show "\<exists>st. scan_goroutine env fs config excl c0 = Some st \<and>
         (\<forall>b\<in>set (ch st).
            Err b = None \<or> Err b = Some Canceled \<and> Done b \<and> cancel_at env \<noteq> None)"
    by (rule stream_errors)
qed

text \<open>
  An instance: a root that does not exist, and a scan of it under a context that is
  cancelled.
\<close>

theorem traversal_errors_swallowed_witness:
  "Map.empty ''/nonexistent/path'' = (None :: fnode option) \<and>
   scanDirectories Map.empty ''/nonexistent/path'' 5 True = ([], None) \<and>
   0 \<le> InitialBatchSize example_config \<and> InitialBatchSize example_config \<le> 2 ^ 44 \<and>
   (\<exists>st. scan_goroutine cancel_env Map.empty example_config None 0 = Some st)"
proof -
  have h1: "Map.empty ''/nonexistent/path'' = (None :: fnode option)" by simp
  have h2: "0 \<le> InitialBatchSize example_config" and h3: "InitialBatchSize example_config \<le> 2 ^ 44"
    by (simp_all add: example_config_def)
  from traversal_errors_swallowed[of Map.empty "''/nonexistent/path''" 5 True example_config
      cancel_env None 0] h1 h2 h3
  show ?thesis by blast
qed

text \<open>
  C3 as stated fails: for a root that cannot be reached, \<open>scanDirectories\<close> returns no
  error, and the last batch of the stream carries none.
\<close>

theorem root_unreachable_counterexample:
  "scanDirectories Map.empty ''/nonexistent/path'' 5 True = ([], None) \<and>
   scanDirectoriesAsync Map.empty ''/nonexistent/path'' 5 True 10 =
     Some [\<lparr>Directories = [], Done = True, Err = None\<rparr>]"
  by code_simp

section \<open>Adaptive batch sizing\<close>

lemma int64_id: "- (2 ^ 63) \<le> x \<Longrightarrow> x < 2 ^ 63 \<Longrightarrow> int64 x = x"
  by (simp add: int64_def)

lemma adapt_threshold:
  assumes "threshold_ok config s" and "MaxBatchSize config \<le> 2 ^ 62"
  shows "currentBatchSize (adapt config s) =
           (if dirCount s > 500 then min (2 * currentBatchSize s) (MaxBatchSize config)
            else currentBatchSize s)"
proof (cases "dirCount s > 500 \<and> currentBatchSize s < MaxBatchSize config")
  case True
  with assms have "- (2 ^ 63) \<le> currentBatchSize s * 2" "currentBatchSize s * 2 < 2 ^ 63"
    by (auto simp: threshold_ok_def)
  then have "int64 (currentBatchSize s * 2) = currentBatchSize s * 2" by (rule int64_id)
  with True show ?thesis by (simp add: adapt_def min_int_def min_def mult.commute)
next
  case False
  with assms show ?thesis by (auto simp: adapt_def threshold_ok_def min_def)
qed

lemma flush_step:
  assumes ok: "threshold_ok config s0" and bt: "int (length (batch s)) \<le> currentBatchSize s0"
    and mx: "MaxBatchSize config \<le> 2 ^ 62"
    and same: "currentBatchSize s = currentBatchSize s0" "ch s = ch s0"
    and fl: "flush env config s = (r, s')"
  shows "threshold_ok config s' \<and> emit_step config s0 s' \<and>
         (r = None \<and> below_threshold s' \<or> r = Some Canceled)"
proof (cases "int (length (batch s)) \<ge> currentBatchSize s")
  case False
  with fl have "s' = s" "r = None" by (simp_all add: flush_def)
  with False ok same show ?thesis
    by (simp add: threshold_ok_def emit_step_def below_threshold_def)
next
  case True
  with bt same have len: "int (length (batch s)) = currentBatchSize s0" by simp
  let ?b = "\<lparr>Directories = batch s, Done = False, Err = None\<rparr>"
  obtain sent s1 where sd: "send env ?b s = (sent, s1)" by (cases "send env ?b s")
  note sc = send_cases[OF sd]
  show ?thesis
  proof (cases sent)
    case False
    with fl True sd have "s' = s1" "r = Some Canceled" by (simp_all add: flush_def)
    with False sc ok same show ?thesis
      by (simp add: threshold_ok_def emit_step_def)
  next
    case sent: True
    with fl True sd have s': "s' = (adapt config s1)\<lparr>batch := []\<rparr>" and r: "r = None"
      by (simp_all add: flush_def)
    have ok1: "threshold_ok config s1" using ok sc same by (simp add: threshold_ok_def)
    note at = adapt_threshold[OF ok1 mx]
    have c1: "currentBatchSize s1 = currentBatchSize s0" using sc same by simp
    have cur': "currentBatchSize s' =
        (if dirCount s' > 500 then min (2 * currentBatchSize s0) (MaxBatchSize config)
         else currentBatchSize s0)"
      using at c1 s' by (simp add: adapt_frame)
    have ch': "ch s' = ch s0 @ [?b]" using s' sc sent same by (simp add: adapt_frame)
    have pos: "0 < currentBatchSize s' \<and> currentBatchSize s' \<le> MaxBatchSize config"
      using cur' ok by (auto simp: threshold_ok_def min_def split: if_splits)
    have "emit_step config s0 s'"
      unfolding emit_step_def using ch' cur' len by simp
    moreover have "below_threshold s'" using pos s' by (simp add: below_threshold_def)
    ultimately show ?thesis using pos r by (simp add: threshold_ok_def)
  qed
qed

lemma scan_fn_step:
  assumes ok: "threshold_ok config s" and bt: "below_threshold s"
    and mx: "MaxBatchSize config \<le> 2 ^ 62"
    and cb: "walkDirContext_fn env (scan_fn env config excl) path d err s = (r, s')"
  shows "threshold_ok config s' \<and> emit_step config s s' \<and>
         (r = None \<or> r = Some SkipDir \<longrightarrow> below_threshold s')"
proof -
  have keep: "\<And>t. ch t = ch s \<Longrightarrow> currentBatchSize t = currentBatchSize s \<Longrightarrow> batch t = batch s
      \<Longrightarrow> threshold_ok config t \<and> emit_step config s t \<and> below_threshold t"
    using ok bt by (simp add: threshold_ok_def emit_step_def below_threshold_def)
  let ?s2 = "tick (tick s)"
  let ?s3 = "?s2\<lparr>batch := batch ?s2 @ [path], dirCount := int64 (dirCount ?s2 + 1)\<rparr>"
  consider (stop) "s' = tick s \<or> s' = tick (tick s)" | (rec) "flush env config ?s3 = (r, s')"
    using cb
    by (auto simp: walkDirContext_fn_def scan_fn_def Let_def tick_def split: if_splits option.splits)
  then show ?thesis
  proof cases
    case stop
    then have "ch s' = ch s \<and> currentBatchSize s' = currentBatchSize s \<and> batch s' = batch s"
      by (auto simp: tick_def)
    with keep[of s'] show ?thesis by simp
  next
    case rec
    have "int (length (batch ?s3)) \<le> currentBatchSize s"
      using bt by (simp add: below_threshold_def tick_def)
    from flush_step[OF ok this mx _ _ rec] show ?thesis by (auto simp: tick_def)
  qed
qed

lemma wrap_succ:
  fixes a h m :: int
  shows "((a + h) mod m - h + 1 + h) mod m = (a + 1 + h) mod m"
proof -
  have "(a + h) mod m - h + 1 + h = (a + h) mod m + 1" by simp
  then have "((a + h) mod m - h + 1 + h) mod m = ((a + h) mod m + 1) mod m" by simp
  also have "\<dots> = (a + h + 1) mod m" by (rule mod_add_left_eq)
  also have "a + h + 1 = a + 1 + h" by simp
  finally show ?thesis .
qed

lemma int64_succ: "int64 (int64 x + 1) = int64 (x + 1)"
  unfolding int64_def using wrap_succ[of x "2 ^ 63" "2 ^ 64"] by simp

lemma flush_counted:
  assumes "counted s" and "flush env config s = (r, s')"
  shows "counted s'"
proof (cases "int (length (batch s)) \<ge> currentBatchSize s")
  case False
  with assms show ?thesis by (simp add: flush_def)
next
  case True
  let ?b = "\<lparr>Directories = batch s, Done = False, Err = None\<rparr>"
  obtain ok s1 where sd: "send env ?b s = (ok, s1)" by (cases "send env ?b s")
  from send_cases[OF sd] assms True sd show ?thesis
    by (cases ok) (auto simp: flush_def counted_def found_def adapt_frame)
qed

lemma scan_fn_counted:
  assumes "counted s"
    and "walkDirContext_fn env (scan_fn env config excl) path d err s = (r, s')"
  shows "counted s'"
proof -
  let ?s2 = "tick (tick s)"
  let ?s3 = "?s2\<lparr>batch := batch ?s2 @ [path], dirCount := int64 (dirCount ?s2 + 1)\<rparr>"
  consider (stop) "s' = tick s \<or> s' = tick (tick s)" | (rec) "flush env config ?s3 = (r, s')"
    using assms(2)
    by (auto simp: walkDirContext_fn_def scan_fn_def Let_def tick_def split: if_splits option.splits)
  then show ?thesis
  proof cases
    case stop
    with assms(1) show ?thesis by (auto simp: counted_def found_def tick_def)
  next
    case rec
    have f: "found ?s3 = Suc (found s)" by (simp add: found_def tick_def)
    have d: "dirCount ?s3 = int64 (int64 (int (found s)) + 1)"
      using assms(1) by (simp add: counted_def tick_def)
    have e: "int64 (int64 (int (found s)) + 1) = int64 (int (Suc (found s)))"
      using int64_succ[of "int (found s)"] by (simp add: add.commute)
    have "counted ?s3" unfolding counted_def f d e ..
    from flush_counted[OF this rec] show ?thesis .
  qed
qed

lemma good_trace_snoc:
  assumes "good_trace config st0 tr" and "below_threshold (last tr)"
    and "threshold_ok config s'" and "emit_step config (last tr) s'" and "counted s'"
  shows "good_trace config st0 (tr @ [s'])"
proof -
  from assms(1) have ne: "tr \<noteq> []" by (simp add: good_trace_def)
  have "set tr = set (butlast tr) \<union> {last tr}"
  proof -
    have "set tr = set (butlast tr @ [last tr])" using append_butlast_last_id[OF ne] by simp
    then show ?thesis by simp
  qed
  with assms(1,2) have "\<forall>s\<in>set tr. below_threshold s"
    by (auto simp: good_trace_def)
  with assms ne show ?thesis
    by (simp add: good_trace_def successively_append_iff)
qed

lemma traced_step:
  assumes mx: "MaxBatchSize config \<le> 2 ^ 62"
    and P: "good_trace config st0 tr \<and> last tr = s \<and> below_threshold s"
    and cb: "traced (walkDirContext_fn env (scan_fn env config excl)) path d err (s, tr) = (r, q)"
  shows "if r = None \<or> r = Some SkipDir
         then good_trace config st0 (snd q) \<and> last (snd q) = fst q \<and> below_threshold (fst q)
         else good_trace config st0 (snd q) \<and> last (snd q) = fst q"
proof -
  obtain s' where f: "walkDirContext_fn env (scan_fn env config excl) path d err s = (r, s')"
    and q: "q = (s', tr @ [s'])"
    using cb by (auto simp: traced_def split: prod.splits)
  from P have "tr \<noteq> []" by (simp add: good_trace_def)
  then have "last tr \<in> set tr" by simp
  with P have ok: "threshold_ok config s" and cn: "counted s" by (auto simp: good_trace_def)
  from scan_fn_step[OF ok _ mx f] P
  have st: "threshold_ok config s' \<and> emit_step config s s' \<and>
         (r = None \<or> r = Some SkipDir \<longrightarrow> below_threshold s')" by simp
  note cn' = scan_fn_counted[OF cn f]
  with st good_trace_snoc[of config st0 tr s'] P have "good_trace config st0 (tr @ [s'])" by simp
  with st q show ?thesis by simp
qed

lemma traced_projection:
  "fst (WalkDir fs root fn s) = fst (WalkDir fs root (traced fn) (s, tr)) \<and>
   snd (WalkDir fs root fn s) = fst (snd (WalkDir fs root (traced fn) (s, tr)))"
proof -
  let ?S = "\<lambda>a b. a = fst b"
  have cb: "\<forall>path d err a b. ?S a b \<longrightarrow>
              fst (fn path d err a) = fst (traced fn path d err b) \<and>
              ?S (snd (fn path d err a)) (snd (traced fn path d err b))"
    by (auto simp: traced_def split: prod.splits)
  from WalkDir_sim[of ?S fn "traced fn", OF cb, of s "(s, tr)" fs root] show ?thesis by simp
qed

lemma scan_trace_good:
  assumes "0 < InitialBatchSize config" and "InitialBatchSize config \<le> MaxBatchSize config"
    and mx: "MaxBatchSize config \<le> 2 ^ 62"
  shows "good_trace config (initial_state config c0) (scan_trace env fs config excl c0) \<and>
         last (scan_trace env fs config excl c0) = snd (after_walk env fs config excl c0)"
proof -
  let ?st0 = "initial_state config c0"
  let ?fn = "traced (walkDirContext_fn env (scan_fn env config excl))"
  let ?P = "\<lambda>q. good_trace config ?st0 (snd q) \<and> last (snd q) = fst q \<and> below_threshold (fst q)"
  let ?R = "\<lambda>(r::error option) q. good_trace config ?st0 (snd q) \<and> last (snd q) = fst q \<and> r \<noteq> Some SkipAll"
  obtain r q where w: "WalkDir fs (Root config) ?fn (?st0, [?st0]) = (r, q)"
    by (cases "WalkDir fs (Root config) ?fn (?st0, [?st0])")
  have cb: "\<forall>path d err s r s'. ?P s \<longrightarrow> (d \<noteq> None \<or> err \<noteq> None) \<longrightarrow> ?fn path d err s = (r, s')
                 \<longrightarrow> (if r = None \<or> r = Some SkipDir then ?P s' else ?R r s')"
  proof (intro allI impI)
    fix path d err s r s'
    assume P: "?P s" and f: "?fn path d err s = (r, s')"
    obtain a tr where s: "s = (a, tr)" by (cases s)
    from P s have P': "good_trace config ?st0 tr \<and> last tr = a \<and> below_threshold a" by simp
    from f s have f': "?fn path d err (a, tr) = (r, s')" by simp
    from traced_step[OF mx P' f']
    have "if r = None \<or> r = Some SkipDir
         then good_trace config ?st0 (snd s') \<and> last (snd s') = fst s' \<and> below_threshold (fst s')
         else good_trace config ?st0 (snd s') \<and> last (snd s') = fst s'" .
    moreover have "r \<noteq> Some SkipAll"
      using f s
      by (auto simp: traced_def walkDirContext_fn_def scan_fn_def flush_def send_def Let_def
               split: prod.splits if_splits option.splits bool.splits)
    ultimately show "if r = None \<or> r = Some SkipDir then ?P s' else ?R r s'" by simp
  qed
  have p0: "?P (?st0, [?st0])"
    using assms(1,2)
    by (simp add: good_trace_def threshold_ok_def below_threshold_def initial_state_def
          counted_def found_def int64_def)
  from WalkDir_inv[of ?P ?fn ?R, OF cb _ p0 w]
  have "good_trace config ?st0 (snd q) \<and> last (snd q) = fst q"
    by (auto split: if_splits)
  moreover have "fst q = snd (after_walk env fs config excl c0)"
    using traced_projection[of fs "Root config" "walkDirContext_fn env (scan_fn env config excl)" ?st0 "[?st0]"] w
    by (simp add: after_walk_def walkDirContext_def)
  ultimately show ?thesis using w by (simp add: scan_trace_def)
qed

text \<open>
  C8, as amended.  For a request whose initial batch size is positive and at most its
  maximum batch size (the initial size being at most \<open>2^44\<close>, so that \<open>make\<close> does not
  panic, and the maximum at most \<open>2^62\<close>, so that doubling stays within the 64-bit
  \<open>int\<close>), consider the states of the emitter's variables after each call of the walk's
  callback, from the initial state to the state in which the walk ends; the stream of the
  emitter is what the channel has carried in the last of them, possibly followed by the
  \<open>done\<close> batch.  The batch size starts at the initial batch size.  In every step either
  nothing is sent and the batch size stays as it is, or one batch that is not the last is
  sent, which holds exactly as many directories as the batch size was, and the batch
  size becomes the minimum of its double and the maximum if \<open>dirCount\<close> is above 500,
  and stays as it is otherwise (\<open>emit_step\<close>).  In every state \<open>dirCount\<close> is the number
  of directories found so far, and the batch size is not above the maximum; as long as
  the walk goes on the buffer is below the batch size, so that a batch is sent exactly
  when the buffer reaches it.  (Nothing in the code makes the initial batch size at most
  the maximum: where it is larger, the batch size stays above the maximum.)
\<close>

theorem adaptive_batch_threshold:
  assumes "0 < InitialBatchSize config" and "InitialBatchSize config \<le> MaxBatchSize config"
    and "InitialBatchSize config \<le> 2 ^ 44" and "MaxBatchSize config \<le> 2 ^ 62"
  shows "scan_trace env fs config excl c0 \<noteq> [] \<and>
         currentBatchSize (hd (scan_trace env fs config excl c0)) = InitialBatchSize config \<and>
         last (scan_trace env fs config excl c0) = snd (after_walk env fs config excl c0) \<and>
         (\<exists>st. scan_goroutine env fs config excl c0 = Some st \<and>
               (ch st = ch (last (scan_trace env fs config excl c0)) \<or>
                (\<exists>b. Done b \<and> ch st = ch (last (scan_trace env fs config excl c0)) @ [b]))) \<and>
         successively (emit_step config) (scan_trace env fs config excl c0) \<and>
         (\<forall>s\<in>set (scan_trace env fs config excl c0).
            dirCount s = int64 (int (found s)) \<and>
            0 < currentBatchSize s \<and> currentBatchSize s \<le> MaxBatchSize config) \<and>
         (\<forall>s\<in>set (butlast (scan_trace env fs config excl c0)).
            int (length (batch s)) < currentBatchSize s)"
proof -
  let ?tr = "scan_trace env fs config excl c0"
  note g = scan_trace_good[OF assms(1,2,4), of c0 env fs excl]
  obtain err st1 where aw: "after_walk env fs config excl c0 = (err, st1)"
    by (cases "after_walk env fs config excl c0")
  define st where "st = finish env (err, st1)"
  have sg: "scan_goroutine env fs config excl c0 = Some st"
    using goroutine_runs[of config env fs excl c0] assms(1,3) aw by (simp add: st_def)
  have l: "last ?tr = st1" using g aw by simp
  from finish_stream[OF aw st_def[symmetric]]
  have "ch st = ch st1 \<or> (\<exists>b. Done b \<and> ch st = ch st1 @ [b])" by auto
  with sg l have link: "\<exists>st. scan_goroutine env fs config excl c0 = Some st \<and>
               (ch st = ch (last ?tr) \<or> (\<exists>b. Done b \<and> ch st = ch (last ?tr) @ [b]))"
    by simp
  from g have rest: "?tr \<noteq> [] \<and>
         currentBatchSize (hd ?tr) = InitialBatchSize config \<and>
         last ?tr = snd (after_walk env fs config excl c0) \<and>
         successively (emit_step config) ?tr \<and>
         (\<forall>s\<in>set ?tr. dirCount s = int64 (int (found s)) \<and>
            0 < currentBatchSize s \<and> currentBatchSize s \<le> MaxBatchSize config) \<and>
         (\<forall>s\<in>set (butlast ?tr). int (length (batch s)) < currentBatchSize s)"
    by (simp add: good_trace_def threshold_ok_def below_threshold_def counted_def
          initial_state_def)
  with link show ?thesis by blast
qed

text \<open>
  An instance: the scan of the example, with initial batch size 2 and maximum 200.
\<close>

theorem adaptive_batch_threshold_witness:
  "0 < InitialBatchSize example_config \<and>
   InitialBatchSize example_config \<le> MaxBatchSize example_config \<and>
   InitialBatchSize example_config \<le> 2 ^ 44 \<and>
   MaxBatchSize example_config \<le> 2 ^ 62 \<and>
   scan_trace Background example_fs example_config None 0 \<noteq> [] \<and>
   currentBatchSize (hd (scan_trace Background example_fs example_config None 0)) = 2 \<and>
   successively (emit_step example_config)
     (scan_trace Background example_fs example_config None 0)"
proof -
  have h1: "0 < InitialBatchSize example_config"
    and h2: "InitialBatchSize example_config \<le> MaxBatchSize example_config"
    and h3: "InitialBatchSize example_config \<le> 2 ^ 44"
    and h4: "MaxBatchSize example_config \<le> 2 ^ 62"
    by (simp_all add: example_config_def)
  have i: "InitialBatchSize example_config = 2" by (simp add: example_config_def)
  from adaptive_batch_threshold[OF h1 h2 h3 h4, of Background example_fs None 0] h1 h2 h3 h4 i
  show ?thesis by simp
qed

text \<open>
  C8 as stated fails: \<open>scanDirectoriesAsyncCtx\<close> with a batch size of 300 sets the maximum
  to 200 and starts with a batch size of 300, which stays: every state of the walk, and
  the state in which the emitter ends, has a batch size of 300, above the maximum.
\<close>

theorem adaptive_batch_threshold_counterexample:
  "MaxBatchSize over_cap_config = 200 \<and>
   map currentBatchSize (scan_trace Background example_fs over_cap_config None 0) =
     [300, 300, 300, 300, 300] \<and>
   map_option currentBatchSize
     (scanDirectoriesAsyncCtx Background example_fs ''/home/user'' 2 True 300 0) = Some 300"
  by code_simp

section \<open>The two-phase orchestrator relays\<close>

lemma relay_take: "\<exists>n. relay env k inner out = out @ take n inner"
proof (induction inner arbitrary: k out)
  case Nil
  show ?case by simp
next
  case (Cons b rest)
  show ?case
  proof (cases "relay_done env k")
    case True
    then have "relay env k (b # rest) out = out @ take 0 (b # rest)" by simp
    then show ?thesis by blast
  next
    case False
    from Cons.IH[of "Suc k" "out @ [b]"] obtain n where
      "relay env (Suc k) rest (out @ [b]) = (out @ [b]) @ take n rest" by blast
    with False have "relay env k (b # rest) out = out @ take (Suc n) (b # rest)" by simp
    then show ?thesis by blast
  qed
qed

lemma relay_phase1_take:
  assumes "relay_phase1 env k inner out = (cont, k', out')"
  shows "\<exists>n\<le>length inner. out' = out @ map phase1_batch (take n inner) \<and>
           (\<forall>i<n. Suc i < n \<longrightarrow> Err (inner ! i) = None) \<and>
           (cont \<longrightarrow> n = length inner \<and> (\<forall>b\<in>set inner. Err b = None))"
  using assms
proof (induction inner arbitrary: k out)
  case Nil
  then show ?case by simp
next
  case (Cons b rest)
  show ?case
  proof (cases "relay_done env k")
    case True
    with Cons.prems have "out' = out @ map phase1_batch (take 0 (b # rest))" "\<not> cont" by simp_all
    then show ?thesis by (intro exI[of _ 0]) simp
  next
    case nd: False
    show ?thesis
    proof (cases "Err b = None")
      case False
      with nd Cons.prems have "out' = out @ map phase1_batch (take 1 (b # rest))" "\<not> cont"
        by (simp_all add: phase1_batch_def)
      then show ?thesis by (intro exI[of _ 1]) simp
    next
      case True
      with nd Cons.prems have "relay_phase1 env (Suc k) rest (out @ [phase1_batch b]) = (cont, k', out')"
        by (simp add: phase1_batch_def)
      from Cons.IH[OF this] obtain n where n: "n \<le> length rest"
        "out' = (out @ [phase1_batch b]) @ map phase1_batch (take n rest)"
        "\<forall>i<n. Suc i < n \<longrightarrow> Err (rest ! i) = None"
        "cont \<longrightarrow> n = length rest \<and> (\<forall>b\<in>set rest. Err b = None)" by blast
      have "\<forall>i<Suc n. Suc i < Suc n \<longrightarrow> Err ((b # rest) ! i) = None"
        using n(3) True by (auto simp: nth_Cons split: nat.splits)
      with n True show ?thesis by (intro exI[of _ "Suc n"]) simp
    qed
  qed
qed

text \<open>
  C9.  The loop of phase 1 starts with nothing relayed.  Every batch it relays is the
  batch of the phase-1 channel at the same position, with the same directories and the
  same error, and with \<open>done = false\<close>.
\<close>

theorem phase1_relay_frame:
  assumes "relay_phase1 env k inner [] = (cont, k', out)"
  shows "length out \<le> length inner \<and>
         (\<forall>i<length out. \<not> Done (out ! i) \<and> Directories (out ! i) = Directories (inner ! i) \<and>
                          Err (out ! i) = Err (inner ! i))"
proof -
  from relay_phase1_take[OF assms] obtain n where
    n: "n \<le> length inner" "out = map phase1_batch (take n inner)" by auto
  then show ?thesis by (simp add: phase1_batch_def)
qed

text \<open>
  An instance: the last batch of phase 1, which has \<open>done = true\<close> in the phase-1 channel, is
  relayed with \<open>done = false\<close>.
\<close>

theorem phase1_relay_frame_witness:
  "relay_phase1 Background 0
     [\<lparr>Directories = [''/home/user/level1''], Done = True, Err = None\<rparr>] [] =
     (True, 1, [\<lparr>Directories = [''/home/user/level1''], Done = False, Err = None\<rparr>]) \<and>
   length [\<lparr>Directories = [''/home/user/level1''], Done = False, Err = None\<rparr>]
     \<le> length [\<lparr>Directories = [''/home/user/level1''], Done = True, Err = None\<rparr>]"
proof -
  have h: "relay_phase1 Background 0
     [\<lparr>Directories = [''/home/user/level1''], Done = True, Err = None\<rparr>] [] =
     (True, 1, [\<lparr>Directories = [''/home/user/level1''], Done = False, Err = None\<rparr>])"
    by (simp add: relay_done_def Background_def)
  from phase1_relay_frame[OF h] h show ?thesis by simp
qed

lemma goroutine_terminal_last:
  assumes "scan_goroutine env fs config excl c0 = Some st"
  shows "terminal_last (ch st)"
proof -
  obtain err st1 where aw: "after_walk env fs config excl c0 = (err, st1)"
    by (cases "after_walk env fs config excl c0")
  have st: "st = finish env (err, st1)"
    using assms aw by (simp add: scan_goroutine_def split: if_splits)
  from after_walk_not_last[OF aw] have nl: "\<forall>b\<in>set (ch st1). \<not> Done b \<and> Err b = None"
    by (simp add: not_last_def)
  from finish_stream[OF aw st[symmetric]]
  obtain fb where cases: "ch st = ch st1 @ [fb] \<or> ch st = ch st1" by blast
  show ?thesis
    unfolding terminal_last_def
  proof (intro allI impI)
    fix i assume i: "i < length (ch st)" and d: "Done (ch st ! i) \<or> Err (ch st ! i) \<noteq> None"
    show "Suc i = length (ch st)"
    proof (cases "i < length (ch st1)")
      case True
      then have "ch st ! i \<in> set (ch st1)" using cases by (auto simp: nth_append)
      with nl d show ?thesis by auto
    next
      case False
      with i cases show ?thesis by auto
    qed
  qed
qed

lemma terminal_last_take: "terminal_last xs \<Longrightarrow> terminal_last (take n xs)"
  by (auto simp: terminal_last_def)

lemma terminal_last_append:
  assumes "\<forall>b\<in>set xs. \<not> Done b \<and> Err b = None" and "terminal_last ys"
  shows "terminal_last (xs @ ys)"
  unfolding terminal_last_def
proof (intro allI impI)
  fix i assume i: "i < length (xs @ ys)"
    and d: "Done ((xs @ ys) ! i) \<or> Err ((xs @ ys) ! i) \<noteq> None"
  show "Suc i = length (xs @ ys)"
  proof (cases "i < length xs")
    case True
    then have "(xs @ ys) ! i \<in> set xs" by (simp add: nth_append)
    with assms(1) d show ?thesis by auto
  next
    case False
    with i d assms(2) have "Suc (i - length xs) = length ys"
      by (auto simp: terminal_last_def nth_append)
    with False show ?thesis by simp
  qed
qed

lemma phase1_terminal_last:
  assumes "\<forall>i<n. Suc i < n \<longrightarrow> Err (inner ! i) = None" and "n \<le> length inner"
  shows "terminal_last (map phase1_batch (take n inner))"
  using assms by (auto simp: terminal_last_def phase1_batch_def)

lemma goroutine_total:
  "0 \<le> InitialBatchSize config \<Longrightarrow> InitialBatchSize config \<le> 2 ^ 44
     \<Longrightarrow> \<exists>st. scan_goroutine env fs config excl c0 = Some st"
  by (simp add: scan_goroutine_def make_panics_def)

lemma async_ctx_total:
  assumes "0 \<le> batchSize" and "batchSize \<le> 2 ^ 44"
  shows "\<exists>st. scanDirectoriesAsyncCtx env fs root maxDepth ig batchSize c0 = Some st \<and>
              terminal_last (ch st)"
proof -
  let ?config = "\<lparr>Root = root, MaxDepth = maxDepth, UseIgnorePatterns = ig,
        InitialBatchSize = batchSize, MaxBatchSize = 200\<rparr>"
  from goroutine_total[of ?config env fs None c0] assms
  obtain st where "scan_goroutine env fs ?config None c0 = Some st" by auto
  with goroutine_terminal_last[OF this] show ?thesis
    by (simp add: scanDirectoriesAsyncCtx_def scanWithConfigCtx_def)
qed

lemma async_ctx_excluding_total:
  assumes "0 \<le> batchSize" and "batchSize \<le> 2 ^ 44"
  shows "\<exists>st. scanDirectoriesAsyncCtxExcluding env fs root maxDepth ig batchSize excludePath c0
                = Some st \<and> terminal_last (ch st)"
proof -
  let ?config = "\<lparr>Root = root, MaxDepth = maxDepth, UseIgnorePatterns = ig,
        InitialBatchSize = batchSize, MaxBatchSize = 200\<rparr>"
  from goroutine_total[of ?config env fs "Some excludePath" c0] assms
  obtain st where "scan_goroutine env fs ?config (Some excludePath) c0 = Some st" by auto
  with goroutine_terminal_last[OF this] show ?thesis
    by (simp add: scanDirectoriesAsyncCtxExcluding_def scanWithConfigCtxExcluding_def)
qed

lemma two_phase_fallback:
  assumes "0 \<le> batchSize" and "batchSize \<le> 2 ^ 44"
  shows "\<exists>outward single n.
           scanTwoPhasesAsyncCtx env fs None startPath maxDepth ig batchSize = Some outward \<and>
           terminal_last outward \<and>
           scanDirectoriesAsyncCtx env fs startPath maxDepth ig batchSize 0 = Some single \<and>
           outward = take n (ch single)"
proof -
  from async_ctx_total[OF assms, of env fs startPath maxDepth ig 0]
  obtain single where s: "scanDirectoriesAsyncCtx env fs startPath maxDepth ig batchSize 0 = Some single"
    and t: "terminal_last (ch single)" by blast
  from relay_take[of env 0 "ch single" "[]"] obtain n where
    n: "relay env 0 (ch single) [] = take n (ch single)" by auto
  have "scanTwoPhasesAsyncCtx env fs None startPath maxDepth ig batchSize = Some (take n (ch single))"
    using s n by (simp add: scanTwoPhasesAsyncCtx_def)
  with s terminal_last_take[OF t, of n] show ?thesis by blast
qed

lemma two_phase_cwd:
  assumes "0 \<le> batchSize" and "batchSize \<le> 2 ^ 44"
  shows "\<exists>outward phase1 n.
           scanTwoPhasesAsyncCtx env fs (Some cwd) startPath maxDepth ig batchSize = Some outward \<and>
           terminal_last outward \<and>
           scanDirectoriesAsyncCtx env fs cwd maxDepth ig batchSize 0 = Some phase1 \<and>
           n \<le> length (ch phase1) \<and>
           (outward = map phase1_batch (take n (ch phase1)) \<or>
            (\<exists>phase2 m.
               scanDirectoriesAsyncCtxExcluding env fs [Separator] maxDepth ig batchSize cwd
                 (clock phase1) = Some phase2 \<and>
               (\<forall>b\<in>set (ch phase1). Err b = None) \<and>
               outward = map phase1_batch (ch phase1) @ take m (ch phase2)))"
proof -
  from async_ctx_total[OF assms, of env fs cwd maxDepth ig 0]
  obtain phase1 where p1: "scanDirectoriesAsyncCtx env fs cwd maxDepth ig batchSize 0 = Some phase1"
    by blast
  obtain cont k out1 where r1: "relay_phase1 env 0 (ch phase1) [] = (cont, k, out1)"
    by (cases "relay_phase1 env 0 (ch phase1) []")
  from relay_phase1_take[OF r1] obtain n where n: "n \<le> length (ch phase1)"
    "out1 = map phase1_batch (take n (ch phase1))"
    "\<forall>i<n. Suc i < n \<longrightarrow> Err (ch phase1 ! i) = None"
    "cont \<longrightarrow> n = length (ch phase1) \<and> (\<forall>b\<in>set (ch phase1). Err b = None)" by auto
  show ?thesis
  proof (cases cont)
    case False
    with p1 r1 have "scanTwoPhasesAsyncCtx env fs (Some cwd) startPath maxDepth ig batchSize = Some out1"
      by (simp add: scanTwoPhasesAsyncCtx_def)
    moreover have "terminal_last out1" using phase1_terminal_last[OF n(3) n(1)] n(2) by simp
    ultimately show ?thesis using p1 n(1,2) by blast
  next
    case True
    with n have all: "\<forall>b\<in>set (ch phase1). Err b = None" and o1: "out1 = map phase1_batch (ch phase1)"
      by simp_all
    from async_ctx_excluding_total[OF assms, of env fs "[Separator]" maxDepth ig cwd "clock phase1"]
    obtain phase2 where p2: "scanDirectoriesAsyncCtxExcluding env fs [Separator] maxDepth ig
        batchSize cwd (clock phase1) = Some phase2" and t2: "terminal_last (ch phase2)" by blast
    from relay_take[of env k "ch phase2" out1] obtain m where
      m: "relay env k (ch phase2) out1 = out1 @ take m (ch phase2)" by auto
    have out: "scanTwoPhasesAsyncCtx env fs (Some cwd) startPath maxDepth ig batchSize
                 = Some (out1 @ take m (ch phase2))"
      using p1 r1 True p2 m by (simp add: scanTwoPhasesAsyncCtx_def)
    have "\<forall>b\<in>set out1. \<not> Done b \<and> Err b = None"
      using all o1 by (auto simp: phase1_batch_def)
    from terminal_last_append[OF this terminal_last_take[OF t2, of m]]
    have "terminal_last (out1 @ take m (ch phase2))" .
    with out p1 p2 all o1 show ?thesis by blast
  qed
qed

text \<open>
  C4, as amended.  With a batch size that is not negative and at most \<open>2^44\<close> (so that
  \<open>make\<close> does not panic) the orchestrator produces an outward stream, in which a batch that has \<open>done = true\<close> or carries an error can only
  be the last value.  When the working directory is not known, the stream is a leading
  part of the stream of the fallback emitter, unchanged.  Otherwise it starts with
  batches of phase 1, each relayed with \<open>done = false\<close>; either it ends there (the
  context was cancelled, or the batch relayed last carries an error: phase 2 is not run
  and the stream has no batch with \<open>done = true\<close>), or all batches of phase 1 were
  relayed, none of them with an error, and a leading part of the stream of the phase-2
  emitter follows, unchanged.  So a batch with \<open>done = true\<close> in the outward stream is
  the one produced by phase 2 or by the fallback; the phase-1 error path produces none.
\<close>

theorem two_phase_outward_stream:
  assumes "0 \<le> batchSize" and "batchSize \<le> 2 ^ 44"
  shows "\<exists>outward.
     scanTwoPhasesAsyncCtx env fs getwd startPath maxDepth ig batchSize = Some outward \<and>
     (\<forall>i<length outward.
        Done (outward ! i) \<or> Err (outward ! i) \<noteq> None \<longrightarrow> Suc i = length outward) \<and>
     (case getwd of
        None \<Rightarrow>
          (\<exists>single n.
             scanDirectoriesAsyncCtx env fs startPath maxDepth ig batchSize 0 = Some single \<and>
             outward = take n (ch single))
      | Some cwd \<Rightarrow>
          (\<exists>phase1 n.
             scanDirectoriesAsyncCtx env fs cwd maxDepth ig batchSize 0 = Some phase1 \<and>
             n \<le> length (ch phase1) \<and>
             (outward = map phase1_batch (take n (ch phase1)) \<or>
              (\<exists>phase2 m.
                 scanDirectoriesAsyncCtxExcluding env fs [Separator] maxDepth ig batchSize cwd
                   (clock phase1) = Some phase2 \<and>
                 (\<forall>b\<in>set (ch phase1). Err b = None) \<and>
                 outward = map phase1_batch (ch phase1) @ take m (ch phase2)))))"
proof (cases getwd)
  case None
  from two_phase_fallback[OF assms, of env fs startPath maxDepth ig] None
  show ?thesis by (auto simp: terminal_last_def)
next
  case (Some cwd)
  from two_phase_cwd[OF assms, of env fs cwd startPath maxDepth ig] Some
  show ?thesis unfolding terminal_last_def by (simp only: option.case) blast
qed

text \<open>
  An instance: the working directory \<open>/home/user\<close> below the root directory.
\<close>

theorem two_phase_outward_stream_witness:
  "(0::int) \<le> 2 \<and> (2::int) \<le> 2 ^ 44 \<and>
   (\<exists>outward. scanTwoPhasesAsyncCtx Background root_fs (Some ''/home/user'') ''/home/user''
                 5 True 2 = Some outward)"
proof -
  have h: "(0::int) \<le> 2" and h': "(2::int) \<le> 2 ^ 44" by simp_all
  from two_phase_outward_stream[OF h h', of Background root_fs "Some ''/home/user''"
      "''/home/user''" 5 True] h h'
  show ?thesis by blast
qed

text \<open>
  C4 as stated fails: the context is cancelled from the start, phase 1 ends with the
  error \<open>Canceled\<close>, and the batch relayed for it has \<open>done = false\<close>; the outward stream
  ends there, without a batch with \<open>done = true\<close>.
\<close>

theorem two_phase_error_counterexample:
  "scanTwoPhasesAsyncCtx cancelled_env root_fs (Some ''/home/user'') ''/home/user'' 5 True 2 =
     Some [\<lparr>Directories = [], Done = False, Err = Some Canceled\<rparr>]"
  by code_simp

section \<open>The exclusion of the working directory in phase 2\<close>

text \<open>
  The exclusion test comes before the depth and ignore tests, and a path it rejects is
  never sent, whatever the ignore setting.
\<close>
lemma flush_none_excluded:
  assumes "none_excluded excl s" and "flush env config s = (r, s')"
  shows "none_excluded excl s'"
proof (cases "int (length (batch s)) \<ge> currentBatchSize s")
  case False
  with assms show ?thesis by (simp add: flush_def)
next
  case True
  let ?b = "\<lparr>Directories = batch s, Done = False, Err = None\<rparr>"
  obtain ok s1 where sd: "send env ?b s = (ok, s1)" by (cases "send env ?b s")
  from send_cases[OF sd] assms True sd show ?thesis
    by (cases ok) (auto simp: flush_def none_excluded_def adapt_frame)
qed

lemma scan_fn_none_excluded:
  assumes "none_excluded excl s"
    and "walkDirContext_fn env (scan_fn env config excl) path d err s = (r, s')"
  shows "none_excluded excl s'"
proof -
  let ?s2 = "tick (tick s)"
  let ?s3 = "?s2\<lparr>batch := batch ?s2 @ [path], dirCount := int64 (dirCount ?s2 + 1)\<rparr>"
  consider (stop) "s' = tick s \<or> s' = tick (tick s)"
    | (rec) "\<not> excluded excl path" "flush env config ?s3 = (r, s')"
    using assms(2)
    by (auto simp: walkDirContext_fn_def scan_fn_def Let_def tick_def split: if_splits option.splits)
  then show ?thesis
  proof cases
    case stop
    with assms(1) show ?thesis by (auto simp: none_excluded_def tick_def)
  next
    case rec
    have "none_excluded excl ?s3" using assms(1) rec(1) by (simp add: none_excluded_def tick_def)
    from flush_none_excluded[OF this rec(2)] show ?thesis .
  qed
qed

lemma excluded_not_sent:
  assumes "scan_goroutine env fs config excl c0 = Some st"
  shows "\<forall>b\<in>set (ch st). \<forall>p\<in>set (Directories b). \<not> excluded excl p"
proof -
  obtain err st1 where aw: "after_walk env fs config excl c0 = (err, st1)"
    by (cases "after_walk env fs config excl c0")
  have st: "st = finish env (err, st1)"
    using assms aw by (simp add: scan_goroutine_def split: if_splits)
  let ?P = "none_excluded excl"
  let ?fn = "walkDirContext_fn env (scan_fn env config excl)"
  have cb: "\<forall>path d e s r s'. ?P s \<longrightarrow> (d \<noteq> None \<or> e \<noteq> None) \<longrightarrow> ?fn path d e s = (r, s') \<longrightarrow>
              (if r = None \<or> r = Some SkipDir then ?P s' else ?P s' \<and> r \<noteq> Some SkipAll)"
  proof (intro allI impI)
    fix path d e s r s'
    assume P: "?P s" and f: "?fn path d e s = (r, s')"
    have "r \<noteq> Some SkipAll"
      using f
      by (auto simp: walkDirContext_fn_def scan_fn_def flush_def send_def Let_def
               split: prod.splits if_splits option.splits bool.splits)
    with scan_fn_none_excluded[OF P f]
    show "if r = None \<or> r = Some SkipDir then ?P s' else ?P s' \<and> r \<noteq> Some SkipAll" by simp
  qed
  have w: "WalkDir fs (Root config) ?fn (initial_state config c0) = (err, st1)"
    using aw by (simp add: after_walk_def walkDirContext_def)
  have p0: "?P (initial_state config c0)" by (simp add: none_excluded_def initial_state_def)
  from WalkDir_inv[of ?P ?fn "\<lambda>r s. ?P s \<and> r \<noteq> Some SkipAll", OF cb _ p0 w]
  have p1: "?P st1" by (auto split: if_splits)
  from finish_stream[OF aw st[symmetric]] p1 show ?thesis
    by (auto simp: none_excluded_def)
qed

text \<open>
  With a working directory below the root directory the two phases are disjoint: phase 2
  prunes \<open>/home/user\<close> and everything below it.
\<close>

lemma two_phase_cwd_below_root:
  "scanTwoPhasesAsyncCtx Background root_fs (Some ''/home/user'') ''/home/user'' 5 True 50 =
     Some [\<lparr>Directories = [''/home/user/level1'', ''/home/user/level1/level2'',
                            ''/home/user/level1/level2/level3''],
            Done = False, Err = None\<rparr>,
           \<lparr>Directories = [''/home''], Done = True, Err = None\<rparr>]"
  by code_simp

text \<open>
  With the root directory as the excluded path the test rejects no path below it.
\<close>

lemma excluded_root:
  "excluded (Some ''/'') ''/home'' = False"
  by code_simp

text \<open>
  C5 fails when the working directory is the root directory \<open>/\<close>.  Phase 2 walks from
  \<open>/\<close> and excludes \<open>/\<close>: the root of the walk is passed over before the exclusion
  test, and no other path starts with \<open>//\<close>, so nothing is pruned and phase 2 sends
  again every directory that phase 1 has sent.
\<close>

theorem two_phase_cwd_root_repeats:
  "scanTwoPhasesAsyncCtx Background root_fs (Some ''/'') ''/'' 5 True 50 =
     Some [\<lparr>Directories = [''/home'', ''/home/user'', ''/home/user/level1'',
                            ''/home/user/level1/level2'', ''/home/user/level1/level2/level3''],
            Done = False, Err = None\<rparr>,
           \<lparr>Directories = [''/home'', ''/home/user'', ''/home/user/level1'',
                            ''/home/user/level1/level2'', ''/home/user/level1/level2/level3''],
            Done = True, Err = None\<rparr>]"
  by code_simp

section \<open>Properties of the matcher\<close>

lemma fuzzyMatch_loop_eq:
  "fuzzyMatch_loop i dirs acc =
     acc @ map (\<lambda>k. \<lparr>Str = dirs ! k, Index = int (i + k), Score = 100, MatchedIndexes = []\<rparr>)
             [0..<length dirs]"
proof (induction dirs arbitrary: i acc)
  case Nil
  show ?case by simp
next
  case (Cons d ds)
  have shift: "[0..<length (d # ds)] = 0 # map Suc [0..<length ds]"
    by (simp add: upt_conv_Cons map_Suc_upt del: upt_Suc)
  show ?case
    unfolding shift by (simp add: Cons.IH comp_def)
qed

text \<open>
  C10.  With the empty query \<open>fuzzyMatch\<close> returns one match per candidate directory, in
  the order of the input list; the match at position \<open>k\<close> carries the \<open>k\<close>-th directory, the
  index \<open>k\<close>, the score 100 and no matched character indexes.  The ranking library is not
  consulted, so the statement holds for every \<open>Find\<close>.
\<close>

theorem fuzzyMatch_empty_query:
  "fuzzyMatch Find [] dirs =
     map (\<lambda>k. \<lparr>Str = dirs ! k, Index = int k, Score = 100, MatchedIndexes = []\<rparr>)
       [0..<length dirs]"
  by (simp add: fuzzyMatch_def fuzzyMatch_loop_eq)

end
